theory Spec2Isabelle
  imports Complex_Main "HOL-Library.AList"
begin

unbundle bit_operations_syntax

section \<open>Data model\<close>

text \<open>
  The engine of \<^verbatim>\<open>src/order_book\<close>: the doubly linked queue of one price level
  (\<^verbatim>\<open>order_linked_list.py\<close>), the full-depth and the top-of-book order book
  (\<^verbatim>\<open>order_book.py\<close>) and the consolidated best bid and offer of \<^verbatim>\<open>market.py\<close>.

  Python objects are mutable and shared: the id index of a book and the queue of a price
  level hold the same \<^verbatim>\<open>OrderNode\<close> objects, and nodes point at their neighbours. The
  embedding therefore keeps the nodes of a book in an explicit store \<open>heap\<close> from
  addresses to node values; a reference to a node is an address, \<^verbatim>\<open>None\<close> is \<open>None\<close>.
  \<open>next_free\<close> is the address the next \<^verbatim>\<open>OrderNode(...)\<close> call gets. Python integers
  are \<open>int\<close>. A price is a Python float obtained from an integer division (or the integer
  sentinel \<^verbatim>\<open>UNDEF_PRICE\<close>); the code only compares prices and tests them for
  truth, so a price is modelled by the rational number it denotes. The one-character
  strings for action and side are \<open>string\<close>s.

  Both \<^verbatim>\<open>Message\<close> and \<^verbatim>\<open>OrderNode\<close> have fields \<^verbatim>\<open>order_id\<close>, \<^verbatim>\<open>price\<close>,
  \<^verbatim>\<open>size\<close>, ...; the record fields carry a prefix (\<open>m_\<close>, \<open>n_\<close>, \<open>ll_\<close>) to keep
  them apart.
\<close>

type_synonym addr = nat

record Message =
  m_action :: string
  m_order_id :: int
  m_size :: int
  m_publisher_id :: int
  m_instrument_id :: int
  m_ts_event :: int
  m_side :: string
  m_ts_recv :: int
  m_flags :: int
  m_price :: rat

record OrderNode =
  n_order_id :: int
  n_price :: rat
  n_size :: int
  n_publisher_id :: int
  n_instrument_id :: int
  n_side :: string
  n_ts_recv :: int
  n_prev :: "addr option"
  n_next :: "addr option"

record OrderLinkedList =
  ll_price :: rat
  ll_depth :: int
  ll_num_orders :: int
  ll_head :: "addr option"
  ll_tail :: "addr option"

record BestBidOffer =
  bbo_size :: int
  bbo_price :: "rat option"

type_synonym ident = "int + string"

type_synonym price_tree = "(rat \<times> OrderLinkedList) list"

record OrderBook =
  instrument :: ident
  publisher :: ident
  ts_last_update :: int
  orders :: "(int \<times> addr) list"
  bids :: price_tree
  offers :: price_tree
  heap :: "addr \<Rightarrow> OrderNode"
  next_free :: addr

record TopOfBookOrderBook =
  tob_instrument :: ident
  tob_publisher :: ident
  tob_ts_last_update :: int
  bid :: "OrderNode option"
  offer :: "OrderNode option"

datatype Book = Full OrderBook | TopOfBook TopOfBookOrderBook

record Market =
  exchanges :: "(int \<times> (int \<times> Book) list) list"
  symbology :: "(int \<times> string) list"
  is_ready :: bool

text \<open>
  The exceptions the code raises, one constructor per \<^verbatim>\<open>raise\<close>, failing \<^verbatim>\<open>assert\<close>
  or failing dictionary lookup. A method that raises leaves the object as it is at that
  moment, so an outcome carries the state in both cases. \<open>ValueError_len\<close> is the
  error of Python's \<^verbatim>\<open>len\<close> when \<^verbatim>\<open>__len__\<close> returns a negative number.
\<close>

datatype exn =
    ValueError_side
  | ValueError_action
  | ValueError_flags
  | ValueError_amount
  | ValueError_len
  | AssertionError_duplicate
  | AssertionError_undef_price
  | AssertionError_side
  | KeyError_order
  | KeyError_level

datatype 's outcome = Ok 's | Raised exn 's

text \<open>
  Constants of the \<^verbatim>\<open>databento\<close> packages, which are not part of the repository.
\<close>

definition UNDEF_PRICE :: rat where
  \<comment> \<open>Modelled from the spec: the sentinel \<^verbatim>\<open>UNDEF_PRICE\<close> of \<^verbatim>\<open>databento_dbn\<close>
      (the largest signed 64-bit integer); no theorem depends on its value.\<close>
  "UNDEF_PRICE = 9223372036854775807"

definition F_TOB :: int where
  \<comment> \<open>Modelled from the spec: \<^verbatim>\<open>db.RecordFlags.F_TOB\<close>, \<^verbatim>\<open>F_TOB = 64\<close>.\<close>
  "F_TOB = 64"

definition F_LAST :: int where
  \<comment> \<open>Modelled from the spec: \<^verbatim>\<open>db.RecordFlags.F_LAST\<close>, \<^verbatim>\<open>F_LAST = 128\<close>.\<close>
  "F_LAST = 128"

section \<open>The queue of one price level (\<^verbatim>\<open>OrderLinkedList\<close>)\<close>

definition OrderLinkedList_init :: "rat \<Rightarrow> OrderLinkedList" where
  "OrderLinkedList_init p =
     \<lparr>ll_price = p, ll_depth = 0, ll_num_orders = 0, ll_head = None, ll_tail = None\<rparr>"

definition OrderNode_init :: "Message \<Rightarrow> OrderNode" where
  \<comment> \<open>\<^verbatim>\<open>OrderNode(order_id = msg.order_id, ..., ts_recv = msg.ts_recv)\<close>\<close>
  "OrderNode_init msg =
     \<lparr>n_order_id = m_order_id msg, n_price = m_price msg, n_size = m_size msg,
      n_publisher_id = m_publisher_id msg, n_instrument_id = m_instrument_id msg,
      n_side = m_side msg, n_ts_recv = m_ts_recv msg, n_prev = None, n_next = None\<rparr>"

definition ll_append ::
  "(addr \<Rightarrow> OrderNode) \<Rightarrow> addr \<Rightarrow> OrderLinkedList \<Rightarrow> Message \<Rightarrow> (addr \<Rightarrow> OrderNode) \<times> OrderLinkedList"
where
  \<comment> \<open>\<^verbatim>\<open>OrderLinkedList.append\<close>; \<open>node\<close> is the address of the new object, which
      is also the value returned.\<close>
  "ll_append h node ll msg =
     (let ll1 = ll\<lparr>ll_num_orders := ll_num_orders ll + 1, ll_depth := ll_depth ll + m_size msg\<rparr>;
          h1 = h(node := (OrderNode_init msg)\<lparr>n_prev := ll_tail ll1\<rparr>);
          h2 = (case ll_tail ll1 of
                  Some t \<Rightarrow> h1(t := (h1 t)\<lparr>n_next := Some node\<rparr>)
                | None \<Rightarrow> h1);
          ll2 = (case ll_head ll1 of
                   None \<Rightarrow> ll1\<lparr>ll_head := Some node\<rparr>
                 | Some x \<Rightarrow> ll1)
      in (h2, ll2\<lparr>ll_tail := Some node\<rparr>))"

definition node_eq :: "(addr \<Rightarrow> OrderNode) \<Rightarrow> addr \<Rightarrow> addr option \<Rightarrow> bool" where
  \<comment> \<open>\<^verbatim>\<open>order_node == other\<close>. \<^verbatim>\<open>OrderNode\<close> is a dataclass, so \<^verbatim>\<open>==\<close> is true for
      one and the same object and otherwise compares the fields in order, \<^verbatim>\<open>order_id\<close>
      first; compared with \<^verbatim>\<open>None\<close> it is false. Two objects whose scalar fields agree
      are compared through their neighbours; here that comparison is cut off at the
      identity of the neighbours.\<close>
  "node_eq h a other =
     (case other of None \<Rightarrow> False | Some b \<Rightarrow> a = b \<or> h a = h b)"

definition ll_remove ::
  "(addr \<Rightarrow> OrderNode) \<Rightarrow> OrderLinkedList \<Rightarrow> addr \<Rightarrow> int \<Rightarrow> exn + ((addr \<Rightarrow> OrderNode) \<times> OrderLinkedList)"
where
  \<comment> \<open>\<^verbatim>\<open>OrderLinkedList.remove(order_node, amount)\<close>\<close>
  "ll_remove h ll order_node amount =
     (if amount > n_size (h order_node) then Inl ValueError_amount
      else
        let h1 = h(order_node := (h order_node)\<lparr>n_size := n_size (h order_node) - amount\<rparr>);
            ll1 = ll\<lparr>ll_depth := ll_depth ll - amount\<rparr>
        in if n_size (h1 order_node) = 0 then
             let ll2 = ll1\<lparr>ll_num_orders := ll_num_orders ll1 - 1\<rparr>;
                 ll3 = (if node_eq h1 order_node (ll_head ll2)
                        then ll2\<lparr>ll_head := n_next (h1 order_node)\<rparr> else ll2);
                 ll4 = (if node_eq h1 order_node (ll_tail ll3)
                        then (case n_next (h1 order_node) of
                                Some x \<Rightarrow> ll3\<lparr>ll_tail := Some x\<rparr>
                              | None \<Rightarrow> ll3\<lparr>ll_tail := n_prev (h1 order_node)\<rparr>)
                        else ll3);
                 h2 = (case n_prev (h1 order_node) of
                         Some p \<Rightarrow> h1(p := (h1 p)\<lparr>n_next := n_next (h1 order_node)\<rparr>)
                       | None \<Rightarrow> h1);
                 h3 = (case n_next (h2 order_node) of
                         Some x \<Rightarrow> h2(x := (h2 x)\<lparr>n_prev := n_prev (h2 order_node)\<rparr>)
                       | None \<Rightarrow> h2)
             in Inr (h3, ll4)
           else Inr (h1, ll1))"

section \<open>The ordered price maps (\<^verbatim>\<open>SortedDict\<close>)\<close>

text \<open>
  A \<^verbatim>\<open>SortedDict\<close> is a list of items in ascending key order: \<^verbatim>\<open>d[k]\<close> is \<open>map_of\<close>,
  \<^verbatim>\<open>len(d)\<close> is \<open>length\<close>, \<^verbatim>\<open>d.peekitem(0)\<close> the first and \<^verbatim>\<open>d.peekitem(-1)\<close> the last
  item.
\<close>

fun sd_setitem :: "rat \<Rightarrow> 'v \<Rightarrow> (rat \<times> 'v) list \<Rightarrow> (rat \<times> 'v) list" where
  "sd_setitem k v [] = [(k, v)]"
| "sd_setitem k v ((k', v') # xs) =
     (if k < k' then (k, v) # (k', v') # xs
      else if k = k' then (k, v) # xs
      else (k', v') # sd_setitem k v xs)"

fun sd_delitem :: "rat \<Rightarrow> (rat \<times> 'v) list \<Rightarrow> (rat \<times> 'v) list" where
  "sd_delitem k [] = []"
| "sd_delitem k ((k', v') # xs) = (if k = k' then xs else (k', v') # sd_delitem k xs)"

section \<open>The full-depth book (\<^verbatim>\<open>OrderBook\<close>)\<close>

definition OrderBook_init :: "ident \<Rightarrow> ident \<Rightarrow> OrderBook" where
  "OrderBook_init i p =
     \<lparr>instrument = i, publisher = p, ts_last_update = 0, orders = [], bids = [], offers = [],
      heap = (\<lambda>_. \<lparr>n_order_id = 0, n_price = 0, n_size = 0, n_publisher_id = 0,
                    n_instrument_id = 0, n_side = [], n_ts_recv = 0, n_prev = None,
                    n_next = None\<rparr>),
      next_free = 0\<rparr>"

definition OrderBook_clear :: "OrderBook \<Rightarrow> OrderBook" where
  "OrderBook_clear b = b\<lparr>orders := [], bids := [], offers := []\<rparr>"

definition side_dict :: "OrderBook \<Rightarrow> string \<Rightarrow> exn + price_tree" where
  "side_dict b side =
     (if side = ''A'' then Inr (offers b)
      else if side = ''B'' then Inr (bids b)
      else Inl ValueError_side)"

definition set_side_dict :: "string \<Rightarrow> price_tree \<Rightarrow> OrderBook \<Rightarrow> OrderBook" where
  \<comment> \<open>\<^verbatim>\<open>_side_dict\<close> returns a reference to one of the two maps; a change made through
      the reference is written back to the field it came from.\<close>
  "set_side_dict side t b = (if side = ''A'' then b\<lparr>offers := t\<rparr> else b\<lparr>bids := t\<rparr>)"

definition OrderBook_add :: "OrderBook \<Rightarrow> Message \<Rightarrow> OrderBook outcome" where
  "OrderBook_add b msg =
     (if map_of (orders b) (m_order_id msg) \<noteq> None then Raised AssertionError_duplicate b
      else if m_price msg = UNDEF_PRICE then Raised AssertionError_undef_price b
      else case side_dict b (m_side msg) of
        Inl e \<Rightarrow> Raised e b
      | Inr px_level_tree \<Rightarrow>
          let order_list = (case map_of px_level_tree (m_price msg) of
                              None \<Rightarrow> OrderLinkedList_init (m_price msg)
                            | Some l \<Rightarrow> l);
              order_node = next_free b;
              (h', order_list') = ll_append (heap b) order_node order_list msg
          in Ok (set_side_dict (m_side msg) (sd_setitem (m_price msg) order_list' px_level_tree)
                   (b\<lparr>heap := h', next_free := Suc order_node,
                      orders := AList.update (m_order_id msg) order_node (orders b)\<rparr>)))"

definition OrderBook_cancel :: "OrderBook \<Rightarrow> Message \<Rightarrow> OrderBook outcome" where
  \<comment> \<open>The queue is changed in place, so the map holds the changed queue from
      \<^verbatim>\<open>remove\<close> on. \<^verbatim>\<open>len(order_list)\<close> is \<^verbatim>\<open>_num_orders\<close> and raises when that is
      negative, after the id has been deleted from the index.\<close>
  "OrderBook_cancel b msg =
     (case map_of (orders b) (m_order_id msg) of
        None \<Rightarrow> Raised KeyError_order b
      | Some order_node \<Rightarrow>
         (case side_dict b (n_side (heap b order_node)) of
            Inl e \<Rightarrow> Raised e b
          | Inr px_level_tree \<Rightarrow>
             (case map_of px_level_tree (n_price (heap b order_node)) of
                None \<Rightarrow> Raised KeyError_level b
              | Some order_list \<Rightarrow>
                 (case ll_remove (heap b) order_list order_node (m_size msg) of
                    Inl e \<Rightarrow> Raised e b
                  | Inr (h', order_list') \<Rightarrow>
                      if n_size (h' order_node) = 0 then
                        (if ll_num_orders order_list' < 0 then
                           Raised ValueError_len
                             (set_side_dict (n_side (h' order_node))
                                (sd_setitem (n_price (h' order_node)) order_list' px_level_tree)
                                (b\<lparr>heap := h',
                                   orders := AList.delete (m_order_id msg) (orders b)\<rparr>))
                         else
                           Ok (set_side_dict (n_side (h' order_node))
                                 (if ll_num_orders order_list' = 0
                                  then sd_delitem (n_price (h' order_node)) px_level_tree
                                  else sd_setitem (n_price (h' order_node)) order_list' px_level_tree)
                                 (b\<lparr>heap := h',
                                    orders := AList.delete (m_order_id msg) (orders b)\<rparr>)))
                      else
                        Ok (set_side_dict (n_side (h' order_node))
                              (sd_setitem (n_price (h' order_node)) order_list' px_level_tree)
                              (b\<lparr>heap := h'(order_node :=
                                     (h' order_node)\<lparr>n_ts_recv := m_ts_recv msg\<rparr>)\<rparr>))))))"

definition cancel_then_add :: "OrderBook \<Rightarrow> Message \<Rightarrow> OrderBook outcome" where
  \<comment> \<open>\<^verbatim>\<open>self._cancel(msg); self._add(msg)\<close>\<close>
  "cancel_then_add b msg =
     (case OrderBook_cancel b msg of
        Raised e b' \<Rightarrow> Raised e b'
      | Ok b' \<Rightarrow> OrderBook_add b' msg)"

definition OrderBook_modify :: "OrderBook \<Rightarrow> Message \<Rightarrow> OrderBook outcome" where
  "OrderBook_modify b msg =
     (case map_of (orders b) (m_order_id msg) of
        None \<Rightarrow> Raised KeyError_order b
      | Some order_node \<Rightarrow>
         (case side_dict b (n_side (heap b order_node)) of
            Inl e \<Rightarrow> Raised e b
          | Inr px_level_tree \<Rightarrow>
             (case map_of px_level_tree (n_price (heap b order_node)) of
                None \<Rightarrow> Raised KeyError_level b
              | Some order_list \<Rightarrow>
                  if n_side (heap b order_node) \<noteq> m_side msg then Raised AssertionError_side b
                  else if m_price msg \<noteq> n_price (heap b order_node) then cancel_then_add b msg
                  else if m_size msg > n_size (heap b order_node) then cancel_then_add b msg
                  else
                    (case ll_remove (heap b) order_list order_node
                            (n_size (heap b order_node) - m_size msg) of
                       Inl e \<Rightarrow> Raised e b
                     | Inr (h', order_list') \<Rightarrow>
                         Ok (set_side_dict (n_side (h' order_node))
                               (sd_setitem (n_price (h' order_node)) order_list' px_level_tree)
                               (b\<lparr>heap := h'(order_node :=
                                      (h' order_node)\<lparr>n_ts_recv := m_ts_recv msg\<rparr>)\<rparr>))))))"

definition OrderBook_apply :: "OrderBook \<Rightarrow> Message \<Rightarrow> OrderBook outcome" where
  "OrderBook_apply b msg =
     (if m_flags msg AND F_TOB \<noteq> 0 then Raised ValueError_flags b
      else
        case (if m_action msg \<in> set [''T'', ''F'', ''N''] then Ok b
              else if m_action msg = ''R'' then Ok (OrderBook_clear b)
              else if m_action msg = ''A'' then OrderBook_add b msg
              else if m_action msg = ''C'' then OrderBook_cancel b msg
              else if m_action msg = ''M'' then OrderBook_modify b msg
              else Raised ValueError_action b) of
          Raised e b' \<Rightarrow> Raised e b'
        | Ok b' \<Rightarrow> Ok (b'\<lparr>ts_last_update := m_ts_recv msg\<rparr>))"

definition OrderBook_bbo :: "OrderBook \<Rightarrow> BestBidOffer \<times> BestBidOffer" where
  "OrderBook_bbo b =
     (let best_bid = (if length (bids b) > 0
                      then (let best_bid_level = snd (last (bids b))
                            in \<lparr>bbo_size = ll_depth best_bid_level,
                                bbo_price = Some (ll_price best_bid_level)\<rparr>)
                      else \<lparr>bbo_size = 0, bbo_price = None\<rparr>);
          best_offer = (if length (offers b) > 0
                        then (let best_offer_level = snd (hd (offers b))
                              in \<lparr>bbo_size = ll_depth best_offer_level,
                                  bbo_price = Some (ll_price best_offer_level)\<rparr>)
                        else \<lparr>bbo_size = 0, bbo_price = None\<rparr>)
      in (best_bid, best_offer))"

fun apply_all :: "OrderBook \<Rightarrow> Message list \<Rightarrow> OrderBook outcome" where
  \<comment> \<open>a caller feeding messages one after the other, stopping at the first exception\<close>
  "apply_all b [] = Ok b"
| "apply_all b (m # ms) =
     (case OrderBook_apply b m of
        Raised e b' \<Rightarrow> Raised e b'
      | Ok b' \<Rightarrow> apply_all b' ms)"

section \<open>The top-of-book book (\<^verbatim>\<open>TopOfBookOrderBook\<close>)\<close>

definition TopOfBookOrderBook_init :: "ident \<Rightarrow> ident \<Rightarrow> TopOfBookOrderBook" where
  "TopOfBookOrderBook_init i p =
     \<lparr>tob_instrument = i, tob_publisher = p, tob_ts_last_update = 0, bid = None, offer = None\<rparr>"

definition TopOfBookOrderBook_clear :: "TopOfBookOrderBook \<Rightarrow> TopOfBookOrderBook" where
  "TopOfBookOrderBook_clear t = t\<lparr>bid := None, offer := None\<rparr>"

definition TopOfBookOrderBook_add :: "TopOfBookOrderBook \<Rightarrow> Message \<Rightarrow> TopOfBookOrderBook" where
  "TopOfBookOrderBook_add t msg =
     (let node = (if m_size msg = 0 \<and> m_price msg = UNDEF_PRICE then None
                  else Some (OrderNode_init msg));
          t1 = (if m_side msg = ''B'' then t\<lparr>bid := node\<rparr> else t\<lparr>offer := node\<rparr>);
          t2 = (if m_flags msg AND F_LAST = 0
                then (if m_side msg = ''B'' then t1\<lparr>offer := None\<rparr> else t1\<lparr>bid := None\<rparr>)
                else t1)
      in t2\<lparr>tob_ts_last_update := m_ts_recv msg\<rparr>)"

definition TopOfBookOrderBook_apply ::
  "TopOfBookOrderBook \<Rightarrow> Message \<Rightarrow> TopOfBookOrderBook outcome"
where
  "TopOfBookOrderBook_apply t msg =
     (case (if m_action msg \<in> set [''T'', ''N''] then Ok t
            else if m_action msg = ''R'' then Ok (TopOfBookOrderBook_clear t)
            else if m_action msg = ''A'' then
              (if m_flags msg AND F_TOB = 0 then Raised ValueError_flags t
               else Ok (TopOfBookOrderBook_add t msg))
            else Raised ValueError_action t) of
        Raised e t' \<Rightarrow> Raised e t'
      | Ok t' \<Rightarrow> Ok (t'\<lparr>tob_ts_last_update := m_ts_recv msg\<rparr>))"

definition TopOfBookOrderBook_bbo :: "TopOfBookOrderBook \<Rightarrow> BestBidOffer \<times> BestBidOffer" where
  \<comment> \<open>\<^verbatim>\<open>if self.bid:\<close> tests an \<^verbatim>\<open>OrderNode\<close>, which is true whenever it is not \<^verbatim>\<open>None\<close>.\<close>
  "TopOfBookOrderBook_bbo t =
     (let best_bid = (case bid t of
                        Some n \<Rightarrow> \<lparr>bbo_size = n_size n, bbo_price = Some (n_price n)\<rparr>
                      | None \<Rightarrow> \<lparr>bbo_size = 0, bbo_price = None\<rparr>);
          best_offer = (case offer t of
                          Some n \<Rightarrow> \<lparr>bbo_size = n_size n, bbo_price = Some (n_price n)\<rparr>
                        | None \<Rightarrow> \<lparr>bbo_size = 0, bbo_price = None\<rparr>)
      in (best_bid, best_offer))"

section \<open>The market (\<^verbatim>\<open>Market.bbo\<close>)\<close>

definition Book_bbo :: "Book \<Rightarrow> BestBidOffer \<times> BestBidOffer" where
  \<comment> \<open>\<^verbatim>\<open>order_book.bbo()\<close>, dispatched on the class of the book\<close>
  "Book_bbo bk = (case bk of Full b \<Rightarrow> OrderBook_bbo b | TopOfBook t \<Rightarrow> TopOfBookOrderBook_bbo t)"

definition get_order_book :: "Market \<Rightarrow> int \<Rightarrow> int \<Rightarrow> Book" where
  "get_order_book mk instrument_id publisher_id =
     (case map_of (exchanges mk) publisher_id of
        None \<Rightarrow> Full (OrderBook_init (Inl instrument_id) (Inl publisher_id))
      | Some exchange \<Rightarrow>
         (case map_of exchange instrument_id of
            None \<Rightarrow> Full (OrderBook_init (Inl instrument_id) (Inl publisher_id))
          | Some bk \<Rightarrow> bk))"

definition truthy :: "rat option \<Rightarrow> bool" where
  \<comment> \<open>the truth value of an \<^verbatim>\<open>Optional[float]\<close>: \<^verbatim>\<open>None\<close> and \<^verbatim>\<open>0.0\<close> are false\<close>
  "truthy p = (case p of None \<Rightarrow> False | Some x \<Rightarrow> x \<noteq> 0)"

definition fold_bid :: "BestBidOffer \<Rightarrow> BestBidOffer \<Rightarrow> BestBidOffer" where
  \<comment> \<open>lines 92 to 97 of \<^verbatim>\<open>market.py\<close>: the new value of \<^verbatim>\<open>best_bid\<close>\<close>
  "fold_bid best_bid exchange_best_bid =
     (if truthy (bbo_price best_bid) \<and> truthy (bbo_price exchange_best_bid) then
        (if the (bbo_price best_bid) < the (bbo_price exchange_best_bid)
         then exchange_best_bid else best_bid)
      else if truthy (bbo_price exchange_best_bid) then exchange_best_bid
      else best_bid)"

definition fold_offer :: "BestBidOffer \<Rightarrow> BestBidOffer \<Rightarrow> BestBidOffer" where
  \<comment> \<open>lines 100 to 105 of \<^verbatim>\<open>market.py\<close>: the new value of \<^verbatim>\<open>best_offer\<close>\<close>
  "fold_offer best_offer exchange_best_offer =
     (if truthy (bbo_price best_offer) \<and> truthy (bbo_price exchange_best_offer) then
        (if the (bbo_price best_offer) > the (bbo_price exchange_best_offer)
         then exchange_best_offer else best_offer)
      else if truthy (bbo_price exchange_best_offer) then exchange_best_offer
      else best_offer)"

definition bbo_step ::
  "Market \<Rightarrow> int \<Rightarrow> BestBidOffer \<times> BestBidOffer \<Rightarrow> int \<Rightarrow> BestBidOffer \<times> BestBidOffer"
where
  \<comment> \<open>one turn of the loop over \<^verbatim>\<open>self.exchanges\<close>\<close>
  "bbo_step mk instrument_id best publisher_id =
     (let (exchange_best_bid, exchange_best_offer) =
            Book_bbo (get_order_book mk instrument_id publisher_id)
      in (fold_bid (fst best) exchange_best_bid, fold_offer (snd best) exchange_best_offer))"

definition Market_bbo :: "Market \<Rightarrow> int \<Rightarrow> int option \<Rightarrow> BestBidOffer \<times> BestBidOffer" where
  \<comment> \<open>\<^verbatim>\<open>if publisher_id:\<close> is false for \<^verbatim>\<open>None\<close> and for \<^verbatim>\<open>0\<close>. A dictionary is iterated
      in the order its keys were inserted, here the order of the association list.\<close>
  "Market_bbo mk instrument_id publisher_id =
     (if (case publisher_id of None \<Rightarrow> False | Some p \<Rightarrow> p \<noteq> 0)
      then Book_bbo (get_order_book mk instrument_id (the publisher_id))
      else foldl (bbo_step mk instrument_id)
             (\<lparr>bbo_size = 0, bbo_price = None\<rparr>, \<lparr>bbo_size = 0, bbo_price = None\<rparr>)
             (map fst (exchanges mk)))"

section \<open>Well-formed books\<close>

text \<open>
  Walking a queue: from the head along \<^verbatim>\<open>next\<close>, for as many steps as the cached
  \<^verbatim>\<open>_num_orders\<close> says (a walk in a store needs a bound to be a total function).
  \<open>is_chain h p c as\<close> says that the walk from \<open>c\<close> visits exactly the addresses \<open>as\<close>
  and then reaches \<^verbatim>\<open>None\<close>, and that every \<^verbatim>\<open>prev\<close> points at the node visited
  before (\<open>p\<close> for the first).
\<close>

fun walk :: "(addr \<Rightarrow> OrderNode) \<Rightarrow> nat \<Rightarrow> addr option \<Rightarrow> addr list" where
  "walk h 0 c = []"
| "walk h (Suc k) None = []"
| "walk h (Suc k) (Some a) = a # walk h k (n_next (h a))"

definition ll_nodes :: "(addr \<Rightarrow> OrderNode) \<Rightarrow> OrderLinkedList \<Rightarrow> addr list" where
  "ll_nodes h ll = walk h (nat (ll_num_orders ll)) (ll_head ll)"

primrec is_chain :: "(addr \<Rightarrow> OrderNode) \<Rightarrow> addr option \<Rightarrow> addr option \<Rightarrow> addr list \<Rightarrow> bool" where
  "is_chain h p c [] = (c = None)"
| "is_chain h p c (a # as) =
     (c = Some a \<and> n_prev (h a) = p \<and> is_chain h (Some a) (n_next (h a)) as)"

definition queue :: "(addr \<Rightarrow> OrderNode) \<Rightarrow> OrderLinkedList \<Rightarrow> addr list \<Rightarrow> bool" where
  \<comment> \<open>the queue \<open>ll\<close> holds exactly the nodes \<open>as\<close>, in this order\<close>
  "queue h ll as \<longleftrightarrow>
     is_chain h None (ll_head ll) as \<and> distinct as \<and>
     ll_tail ll = (if as = [] then None else Some (last as)) \<and>
     ll_num_orders ll = int (length as) \<and>
     ll_depth ll = sum_list (map (\<lambda>a. n_size (h a)) as)"

definition unlink :: "(addr \<Rightarrow> OrderNode) \<Rightarrow> addr \<Rightarrow> (addr \<Rightarrow> OrderNode)" where
  \<comment> \<open>the store after lines 96 to 99 of \<^verbatim>\<open>order_linked_list.py\<close>: the neighbours of
      \<open>a\<close> point at each other\<close>
  "unlink h a =
     (let h2 = (case n_prev (h a) of
                  Some p \<Rightarrow> h(p := (h p)\<lparr>n_next := n_next (h a)\<rparr>)
                | None \<Rightarrow> h)
      in (case n_next (h2 a) of
            Some x \<Rightarrow> h2(x := (h2 x)\<lparr>n_prev := n_prev (h2 a)\<rparr>)
          | None \<Rightarrow> h2))"

definition content :: "OrderNode \<Rightarrow> OrderNode" where
  \<comment> \<open>a node without its links: what the order says\<close>
  "content n = n\<lparr>n_prev := None, n_next := None\<rparr>"

definition queue_inv :: "(addr \<Rightarrow> OrderNode) \<Rightarrow> OrderLinkedList \<Rightarrow> bool" where
  "queue_inv h ll \<longleftrightarrow> queue h ll (ll_nodes h ll)"

definition all_levels :: "OrderBook \<Rightarrow> (string \<times> rat \<times> OrderLinkedList) list" where
  \<comment> \<open>the price levels of both side maps, each with the side of its map\<close>
  "all_levels b = map (Pair ''B'') (bids b) @ map (Pair ''A'') (offers b)"

definition level_inv ::
  "(addr \<Rightarrow> OrderNode) \<Rightarrow> addr \<Rightarrow> (int \<times> addr) list \<Rightarrow> string \<times> rat \<times> OrderLinkedList \<Rightarrow> bool"
where
  \<comment> \<open>a price level \<open>ll\<close> at price \<open>p\<close> of the map of side \<open>s\<close>, in the store \<open>h\<close>, with
      \<open>nf\<close> the next free address and \<open>ords\<close> the id index\<close>
  "level_inv h nf ords = (\<lambda>(s, p, ll).
     ll_price ll = p \<and> 0 < ll_num_orders ll \<and> queue_inv h ll \<and>
     (\<forall>a \<in> set (ll_nodes h ll).
        a < nf \<and> n_side (h a) = s \<and> n_price (h a) = p \<and> n_size (h a) \<noteq> 0 \<and>
        map_of ords (n_order_id (h a)) = Some a))"

definition index_inv ::
  "(addr \<Rightarrow> OrderNode) \<Rightarrow> (string \<times> rat \<times> OrderLinkedList) set \<Rightarrow> int \<times> addr \<Rightarrow> bool"
where
  \<comment> \<open>an entry of the id index, with \<open>lv\<close> the price levels of the book\<close>
  "index_inv h lv = (\<lambda>(i, a).
     n_order_id (h a) = i \<and>
     (\<exists>(s, p, ll) \<in> lv. s = n_side (h a) \<and> p = n_price (h a) \<and> a \<in> set (ll_nodes h ll)))"

definition keys_sorted :: "(rat \<times> 'v) list \<Rightarrow> bool" where
  "keys_sorted t \<longleftrightarrow> sorted_wrt (<) (map fst t)"

definition uniq_levels :: "(string \<times> rat \<times> OrderLinkedList) set \<Rightarrow> bool" where
  \<comment> \<open>a side has at most one level at a price\<close>
  "uniq_levels lv \<longleftrightarrow> (\<forall>s p l l'. (s, p, l) \<in> lv \<longrightarrow> (s, p, l') \<in> lv \<longrightarrow> l = l')"

definition book_inv :: "OrderBook \<Rightarrow> bool" where
  "book_inv b \<longleftrightarrow>
     keys_sorted (bids b) \<and> keys_sorted (offers b) \<and> distinct (map fst (orders b)) \<and>
     (\<forall>l \<in> set (all_levels b). level_inv (heap b) (next_free b) (orders b) l) \<and>
     (\<forall>e \<in> set (orders b). index_inv (heap b) (set (all_levels b)) e)"

text \<open>
  The properties of claim C4 as the claim words them: a price level has a positive order
  count that is the number of linked nodes (the walk of that many steps is a complete
  chain), its depth is the sum of its nodes' sizes, and no node has size 0; an entry of
  the id index is found exactly once in the queue at its price on its side.
\<close>

definition level_ok :: "(addr \<Rightarrow> OrderNode) \<Rightarrow> OrderLinkedList \<Rightarrow> bool" where
  "level_ok h ll \<longleftrightarrow>
     0 < ll_num_orders ll \<and>
     is_chain h None (ll_head ll) (ll_nodes h ll) \<and>
     ll_num_orders ll = int (length (ll_nodes h ll)) \<and>
     ll_depth ll = sum_list (map (\<lambda>a. n_size (h a)) (ll_nodes h ll)) \<and>
     (\<forall>a \<in> set (ll_nodes h ll). n_size (h a) \<noteq> 0)"

definition indexed_once :: "OrderBook \<Rightarrow> int \<times> addr \<Rightarrow> bool" where
  "indexed_once b = (\<lambda>(i, a).
     case side_dict b (n_side (heap b a)) of
       Inl e \<Rightarrow> False
     | Inr t \<Rightarrow>
        (case map_of t (n_price (heap b a)) of
           None \<Rightarrow> False
         | Some ll \<Rightarrow> count_list (ll_nodes (heap b) ll) a = 1))"

definition positive_counts :: "OrderBook \<Rightarrow> bool" where
  \<comment> \<open>every price level of either side map has a positive order count\<close>
  "positive_counts b \<longleftrightarrow> (\<forall>(p, ll) \<in> set (bids b) \<union> set (offers b). 0 < ll_num_orders ll)"

definition nonzero_size :: "Message \<Rightarrow> bool" where
  \<comment> \<open>an add or modify message carries a size other than 0\<close>
  "nonzero_size m \<longleftrightarrow> (m_action m = ''A'' \<or> m_action m = ''M'' \<longrightarrow> m_size m \<noteq> 0)"

section \<open>Consolidated quotes: what the fold computes\<close>

definition exchange_quotes :: "Market \<Rightarrow> int \<Rightarrow> (BestBidOffer \<times> BestBidOffer) list" where
  \<comment> \<open>the best bid and offer of every known publisher's book for the instrument, in the
      order the publishers are iterated\<close>
  "exchange_quotes mk i = map (\<lambda>p. Book_bbo (get_order_book mk i p)) (map fst (exchanges mk))"


section \<open>Example inputs\<close>

fun state_of :: "'s outcome \<Rightarrow> 's" where
  "state_of (Ok s) = s"
| "state_of (Raised e s) = s"

definition example_msg :: "string \<Rightarrow> string \<Rightarrow> int \<Rightarrow> rat \<Rightarrow> int \<Rightarrow> int \<Rightarrow> Message" where
  \<comment> \<open>action, side, order id, price, size, flags\<close>
  "example_msg a s i p z f =
     \<lparr>m_action = a, m_order_id = i, m_size = z, m_publisher_id = 1, m_instrument_id = 7,
      m_ts_event = 0, m_side = s, m_ts_recv = 5, m_flags = f, m_price = p\<rparr>"

definition example_book :: "Message list \<Rightarrow> OrderBook" where
  \<comment> \<open>the book a fresh book becomes under the messages\<close>
  "example_book ms = state_of (apply_all (OrderBook_init (Inl 7) (Inl 1)) ms)"

fun raised :: "'s outcome \<Rightarrow> exn option" where
  "raised (Ok s) = None"
| "raised (Raised e s) = Some e"

definition one_bid :: OrderBook where
  \<comment> \<open>one bid of 5 at 100, order id 1\<close>
  "one_bid = example_book [example_msg ''A'' ''B'' 1 100 5 128]"

definition three_bids :: OrderBook where
  \<comment> \<open>scenario 2 of the spec's end-to-end list: three bids at 100 of sizes 5, 3, 7\<close>
  "three_bids = example_book [example_msg ''A'' ''B'' 1 100 5 128,
     example_msg ''A'' ''B'' 2 100 3 128, example_msg ''A'' ''B'' 3 100 7 128]"


definition zero_market :: Market where
  \<comment> \<open>one publisher, whose only order is a bid of 5 at price 0\<close>
  "zero_market =
     \<lparr>exchanges = [(1, [(7, Full (example_book [example_msg ''A'' ''B'' 1 0 5 128]))])],
      symbology = [], is_ready = True\<rparr>"


section \<open>Evaluating the examples\<close>

lemmas eval_defs =
  example_book_def example_msg_def OrderBook_init_def OrderBook_apply_def OrderBook_add_def
  OrderBook_cancel_def OrderBook_modify_def cancel_then_add_def OrderBook_clear_def
  side_dict_def set_side_dict_def ll_append_def ll_remove_def node_eq_def
  OrderLinkedList_init_def OrderNode_init_def F_TOB_def F_LAST_def UNDEF_PRICE_def Let_def

section \<open>Ordered price maps: lemmas\<close>

lemma sd_setitem_nonempty: "sd_setitem k v t \<noteq> []"
  by (cases t) (auto split: if_splits)



lemma keys_sorted_Nil: "keys_sorted []"
  by (simp add: keys_sorted_def)

lemma keys_sorted_Cons:
  "keys_sorted (x # t) \<longleftrightarrow> (\<forall>y \<in> set t. fst x < fst y) \<and> keys_sorted t"
  by (auto simp: keys_sorted_def)

lemma set_sd_setitem:
  "keys_sorted t \<Longrightarrow> set (sd_setitem k v t) = insert (k, v) {x \<in> set t. fst x \<noteq> k}"
  by (induction t) (fastforce simp: keys_sorted_def split: if_splits)+

lemma set_sd_delitem:
  "keys_sorted t \<Longrightarrow> set (sd_delitem k t) = {x \<in> set t. fst x \<noteq> k}"
  by (induction t) (fastforce simp: keys_sorted_def split: if_splits)+

lemma keys_sorted_sd_setitem: "keys_sorted t \<Longrightarrow> keys_sorted (sd_setitem k v t)"
proof (induction t)
  case Nil
  then show ?case by (simp add: keys_sorted_def)
next
  case (Cons x t)
  then have t: "keys_sorted t" and lt: "\<forall>y \<in> set t. fst x < fst y"
    by (simp_all add: keys_sorted_Cons)
  obtain k' v' where x: "x = (k', v')" by (cases x)
  show ?case
  proof (cases "k < k'")
    case True
    with Cons.prems x lt show ?thesis by (auto simp: keys_sorted_Cons)
  next
    case False
    show ?thesis
    proof (cases "k = k'")
      case True
      with Cons.prems x lt show ?thesis by (auto simp: keys_sorted_Cons)
    next
      case ne: False
      with False have "k' < k" by simp
      with False ne x lt Cons.IH [OF t] show ?thesis
        by (auto simp: keys_sorted_Cons set_sd_setitem [OF t])
    qed
  qed
qed

lemma keys_sorted_sd_delitem: "keys_sorted t \<Longrightarrow> keys_sorted (sd_delitem k t)"
proof (induction t)
  case Nil
  then show ?case by (simp add: keys_sorted_def)
next
  case (Cons x t)
  then have t: "keys_sorted t" and lt: "\<forall>y \<in> set t. fst x < fst y"
    by (simp_all add: keys_sorted_Cons)
  with Cons.IH [OF t] show ?case
    by (cases x) (auto simp: keys_sorted_Cons set_sd_delitem [OF t])
qed

lemma map_of_sd_delitem:
  "keys_sorted t \<Longrightarrow> map_of (sd_delitem k t) = (map_of t)(k := None)"
  by (induction t) (force simp: keys_sorted_def fun_eq_iff map_of_eq_None_iff)+



lemma keys_sorted_map_of:
  "keys_sorted t \<Longrightarrow> (k, v) \<in> set t \<longleftrightarrow> map_of t k = Some v"
  by (auto simp: keys_sorted_def strict_sorted_iff dest: map_of_SomeD)




section \<open>Queues in the store: lemmas\<close>

lemma content_fields:
  "content x = content y \<Longrightarrow>
     n_order_id x = n_order_id y \<and> n_price x = n_price y \<and> n_size x = n_size y \<and>
     n_side x = n_side y \<and> n_ts_recv x = n_ts_recv y \<and>
     n_publisher_id x = n_publisher_id y \<and> n_instrument_id x = n_instrument_id y"
  by (cases x, cases y) (simp add: content_def)

lemma content_links [simp]:
  "content (x\<lparr>n_next := q\<rparr>) = content x" "content (x\<lparr>n_prev := q\<rparr>) = content x"
  by (simp_all add: content_def)

lemma is_chain_walk: "is_chain h p c as \<Longrightarrow> walk h (length as) c = as"
  by (induction as arbitrary: p c) auto

lemma is_chain_frame:
  "\<forall>a \<in> set as. n_prev (h' a) = n_prev (h a) \<and> n_next (h' a) = n_next (h a) \<Longrightarrow>
   is_chain h' p c as = is_chain h p c as"
  by (induction as arbitrary: p c) auto

lemma is_chain_links:
  "is_chain h p c (xs @ a # ys) \<Longrightarrow>
   n_next (h a) = (case ys of [] \<Rightarrow> None | y # _ \<Rightarrow> Some y) \<and>
   n_prev (h a) = (if xs = [] then p else Some (last xs))"
proof (induction xs arbitrary: p c)
  case Nil
  then show ?case by (cases ys) auto
next
  case (Cons x xs)
  from Cons.prems have "is_chain h (Some x) (n_next (h x)) (xs @ a # ys)" by simp
  from Cons.IH [OF this] show ?case by simp
qed

lemma is_chain_head:
  "is_chain h p c as \<Longrightarrow> c = (case as of [] \<Rightarrow> None | a # _ \<Rightarrow> Some a)"
  by (cases as) auto

lemma is_chain_snoc:
  assumes "is_chain h p c as" and "as \<noteq> []" and "n \<notin> set as" and "distinct as"
    and "n_next nd = None" and "n_prev nd = Some (last as)"
  shows "is_chain ((h(n := nd))(last as := (h (last as))\<lparr>n_next := Some n\<rparr>)) p c (as @ [n])"
  using assms
proof (induction as arbitrary: p c)
  case Nil
  then show ?case by simp
next
  case (Cons a as)
  show ?case
  proof (cases "as = []")
    case True
    with Cons.prems show ?thesis by auto
  next
    case False
    from Cons.prems have ch: "is_chain h (Some a) (n_next (h a)) as"
      and c: "c = Some a" and p: "n_prev (h a) = p" by auto
    from Cons.prems False have rest: "n \<notin> set as" "distinct as" "n_next nd = None"
      "n_prev nd = Some (last as)" by auto
    let ?h' = "(h(n := nd))(last as := (h (last as))\<lparr>n_next := Some n\<rparr>)"
    from Cons.IH [OF ch False rest]
    have IH: "is_chain ?h' (Some a) (n_next (h a)) (as @ [n])" .
    from Cons.prems False have "a \<noteq> n" "a \<noteq> last as" by auto
    then have ha: "?h' a = h a" by simp
    have "is_chain ?h' p c (a # (as @ [n]))"
      using IH c p ha by (simp del: fun_upd_apply)
    then show ?thesis using False by (simp del: fun_upd_apply)
  qed
qed

lemma unlink_other:
  "n_prev (h a) \<noteq> Some z \<Longrightarrow> n_next (h a) \<noteq> Some z \<Longrightarrow> unlink h a z = h z"
  by (auto simp: unlink_def Let_def split: option.splits)

lemma unlink_content: "content (unlink h a z) = content (h z)"
  by (auto simp: unlink_def Let_def split: option.splits)

lemma unlink_next:
  assumes "n_prev (h a) \<noteq> Some a" and "n_next (h a) \<noteq> Some a"
  shows "n_next (unlink h a z) = (if n_prev (h a) = Some z then n_next (h a) else n_next (h z))"
  using assms by (auto simp: unlink_def Let_def split: option.splits)

lemma unlink_prev:
  assumes "n_prev (h a) \<noteq> Some a" and "n_next (h a) \<noteq> Some a"
  shows "n_prev (unlink h a z) = (if n_next (h a) = Some z then n_prev (h a) else n_prev (h z))"
  using assms by (auto simp: unlink_def Let_def split: option.splits)

lemma is_chain_unlink:
  assumes "is_chain h p c (xs @ a # ys)" and "distinct (xs @ a # ys)"
    and "\<forall>q. p = Some q \<longrightarrow> q \<notin> set (xs @ a # ys)"
  shows "is_chain (unlink h a) p (if xs = [] then n_next (h a) else c) (xs @ ys)"
  using assms
proof (induction xs arbitrary: p c)
  case Nil
  from Nil.prems have pa: "n_prev (h a) = p" and pa': "p \<noteq> Some a"
    and ch: "is_chain h (Some a) (n_next (h a)) ys" by auto
  show ?case
  proof (cases ys)
    case Nil
    with ch show ?thesis by simp
  next
    case (Cons y ys')
    with ch have na: "n_next (h a) = Some y" and py: "n_prev (h y) = Some a"
      and ch': "is_chain h (Some y) (n_next (h y)) ys'" by auto
    from Nil.prems Cons have ya: "y \<noteq> a" and yp: "p \<noteq> Some y" by auto
    have self: "n_prev (h a) \<noteq> Some a" "n_next (h a) \<noteq> Some a"
      using pa pa' na ya by auto
    have "\<forall>z \<in> set ys'. unlink h a z = h z"
    proof
      fix z assume "z \<in> set ys'"
      with Nil.prems Cons have "z \<noteq> y" "p \<noteq> Some z" by auto
      with pa na show "unlink h a z = h z" by (intro unlink_other) auto
    qed
    then have "is_chain (unlink h a) (Some y) (n_next (h y)) ys'"
      using ch' is_chain_frame [of ys' "unlink h a" h] by simp
    moreover have "n_prev (unlink h a y) = p" using na pa self by (simp add: unlink_prev)
    moreover have "n_next (unlink h a y) = n_next (h y)"
      using pa yp self by (simp add: unlink_next)
    ultimately show ?thesis using Cons na by simp
  qed
next
  case (Cons x xs)
  from Cons.prems have c: "c = Some x" and px: "n_prev (h x) = p"
    and ch: "is_chain h (Some x) (n_next (h x)) (xs @ a # ys)" by auto
  from Cons.prems have d: "distinct (xs @ a # ys)"
    and out: "\<forall>q. Some x = Some q \<longrightarrow> q \<notin> set (xs @ a # ys)" by auto
  note IH = Cons.IH [OF ch d out]
  from is_chain_links [OF ch]
  have na: "n_next (h a) = (case ys of [] \<Rightarrow> None | y # _ \<Rightarrow> Some y)"
    and pa: "n_prev (h a) = (if xs = [] then Some x else Some (last xs))" by auto
  from Cons.prems have xa: "x \<noteq> a" and xys: "x \<notin> set ys" and xxs: "x \<notin> set xs"
    and axs: "a \<notin> set xs" and ays: "a \<notin> set ys" by auto
  have self: "n_prev (h a) \<noteq> Some a" "n_next (h a) \<noteq> Some a"
    using pa na xa axs ays by (auto split: list.splits)
  have "n_next (h a) \<noteq> Some x" using na xys by (auto split: list.splits)
  then have "n_prev (unlink h a x) = p" using px self by (simp add: unlink_prev)
  moreover have "n_next (unlink h a x) = (if xs = [] then n_next (h a) else n_next (h x))"
    using pa xxs self by (auto simp: unlink_next)
  ultimately show ?case using IH c by simp
qed

lemma queue_nodes: "queue h ll as \<Longrightarrow> ll_nodes h ll = as"
  by (auto simp: queue_def ll_nodes_def intro: is_chain_walk)

lemma queue_inv_intro: "queue h ll as \<Longrightarrow> queue_inv h ll"
  by (simp add: queue_inv_def queue_nodes)

lemma queue_init: "queue h (OrderLinkedList_init p) []"
  by (simp add: queue_def OrderLinkedList_init_def)

lemma sum_list_cong_size:
  "\<forall>a \<in> set as. n_size (h' a) = n_size (h a) \<Longrightarrow>
   sum_list (map (\<lambda>a. n_size (h' a)) as) = sum_list (map (\<lambda>a. n_size (h a)) as)"
  by (induction as) auto

lemma queue_frame:
  assumes "queue h ll as"
    and "\<forall>a \<in> set as. n_prev (h' a) = n_prev (h a) \<and> n_next (h' a) = n_next (h a) \<and>
           n_size (h' a) = n_size (h a)"
  shows "queue h' ll as"
proof -
  from assms(2) have "is_chain h' None (ll_head ll) as = is_chain h None (ll_head ll) as"
    by (intro is_chain_frame) simp
  moreover from assms(2)
  have "sum_list (map (\<lambda>a. n_size (h' a)) as) = sum_list (map (\<lambda>a. n_size (h a)) as)"
    by (intro sum_list_cong_size) simp
  ultimately show ?thesis using assms(1) by (simp add: queue_def)
qed

lemma ll_append_price: "ll_append h n ll msg = (h', ll') \<Longrightarrow> ll_price ll' = ll_price ll"
  by (auto simp: ll_append_def Let_def split: option.splits)

lemma ll_append_new:
  "ll_append h n ll msg = (h', ll') \<Longrightarrow> ll_tail ll \<noteq> Some n \<Longrightarrow>
   h' n = (OrderNode_init msg)\<lparr>n_prev := ll_tail ll\<rparr>"
  by (auto simp: ll_append_def Let_def split: option.splits)

lemma ll_append_old:
  "ll_append h n ll msg = (h', ll') \<Longrightarrow> z \<noteq> n \<Longrightarrow>
   h' z = (if ll_tail ll = Some z then (h z)\<lparr>n_next := Some n\<rparr> else h z)"
  by (auto simp: ll_append_def Let_def split: option.splits)

lemma ll_append_queue:
  assumes q: "queue h ll as" and n: "n \<notin> set as" and ap: "ll_append h n ll msg = (h', ll')"
  shows "queue h' ll' (as @ [n])"
proof (cases "as = []")
  case True
  with q have "ll_head ll = None" "ll_tail ll = None" "ll_num_orders ll = 0" "ll_depth ll = 0"
    by (auto simp: queue_def)
  with ap True show ?thesis
    by (auto simp: ll_append_def Let_def queue_def OrderNode_init_def)
next
  case False
  from q False have t: "ll_tail ll = Some (last as)" and hd: "ll_head ll = Some (hd as)"
    and ch: "is_chain h None (ll_head ll) as" and d: "distinct as"
    and num: "ll_num_orders ll = int (length as)"
    and dep: "ll_depth ll = sum_list (map (\<lambda>a. n_size (h a)) as)"
    by (auto simp: queue_def dest: is_chain_head split: list.splits)
  let ?nd = "(OrderNode_init msg)\<lparr>n_prev := Some (last as)\<rparr>"
  from ap t hd have h': "h' = (h(n := ?nd))(last as := (h (last as))\<lparr>n_next := Some n\<rparr>)"
    using n False by (auto simp: ll_append_def Let_def)
  from ap t hd have ll': "ll' = ll\<lparr>ll_num_orders := ll_num_orders ll + 1,
      ll_depth := ll_depth ll + m_size msg, ll_tail := Some n\<rparr>"
    by (auto simp: ll_append_def Let_def)
  have "is_chain h' None (ll_head ll) (as @ [n])"
    unfolding h' by (rule is_chain_snoc [OF ch False n d]) (simp_all add: OrderNode_init_def)
  moreover have "\<forall>a \<in> set as. n_size (h' a) = n_size (h a)"
    using n by (auto simp: h')
  then have "sum_list (map (\<lambda>a. n_size (h' a)) as) = sum_list (map (\<lambda>a. n_size (h a)) as)"
    by (rule sum_list_cong_size)
  moreover have "n_size (h' n) = m_size msg"
    using n False by (auto simp: h' OrderNode_init_def)
  ultimately show ?thesis using d n num dep by (simp add: queue_def ll')
qed

lemma ll_remove_partial:
  assumes "\<not> amount > n_size (h a)" and "n_size (h a) - amount \<noteq> 0"
  shows "ll_remove h ll a amount =
           Inr (h(a := (h a)\<lparr>n_size := n_size (h a) - amount\<rparr>),
                ll\<lparr>ll_depth := ll_depth ll - amount\<rparr>)"
  using assms by (simp add: ll_remove_def Let_def)

lemma sum_list_size_upd:
  "distinct as \<Longrightarrow> a \<in> set as \<Longrightarrow>
   sum_list (map (\<lambda>z. n_size ((h(a := nd)) z)) as) =
   sum_list (map (\<lambda>z. n_size (h z)) as) - n_size (h a) + n_size nd"
proof (induction as)
  case Nil
  then show ?case by simp
next
  case (Cons x as)
  show ?case
  proof (cases "x = a")
    case True
    with Cons.prems have "a \<notin> set as" by simp
    then have "sum_list (map (\<lambda>z. n_size ((h(a := nd)) z)) as) =
               sum_list (map (\<lambda>z. n_size (h z)) as)"
      by (intro sum_list_cong_size) auto
    with True show ?thesis by simp
  next
    case False
    with Cons show ?thesis by simp
  qed
qed

lemma queue_resize:
  assumes q: "queue h ll as" and a: "a \<in> set as"
  shows "queue (h(a := (h a)\<lparr>n_size := s\<rparr>)) (ll\<lparr>ll_depth := ll_depth ll - (n_size (h a) - s)\<rparr>) as"
proof -
  let ?h' = "h(a := (h a)\<lparr>n_size := s\<rparr>)"
  have "is_chain ?h' None (ll_head ll) as = is_chain h None (ll_head ll) as"
    by (intro is_chain_frame) simp
  moreover from q a have "sum_list (map (\<lambda>z. n_size (?h' z)) as) =
      sum_list (map (\<lambda>z. n_size (h z)) as) - n_size (h a) + s"
    using sum_list_size_upd [of as a h "(h a)\<lparr>n_size := s\<rparr>"] by (simp add: queue_def)
  ultimately show ?thesis using q by (simp add: queue_def)
qed

lemma node_eq_iff:
  assumes "\<forall>b. other = Some b \<longrightarrow> b \<noteq> a \<longrightarrow> n_order_id (h b) \<noteq> n_order_id (h a)"
  shows "node_eq h a other \<longleftrightarrow> other = Some a"
  using assms by (cases other) (auto simp: node_eq_def)

lemma ll_remove_unfold:
  assumes amt: "amount = n_size (h a)"
    and he: "node_eq (h(a := (h a)\<lparr>n_size := 0\<rparr>)) a (ll_head ll) \<longleftrightarrow> at_head"
    and te: "node_eq (h(a := (h a)\<lparr>n_size := 0\<rparr>)) a (ll_tail ll) \<longleftrightarrow> at_tail"
    and nx: "at_tail \<longrightarrow> n_next (h a) = None"
  shows "ll_remove h ll a amount =
     Inr (unlink (h(a := (h a)\<lparr>n_size := 0\<rparr>)) a,
          ll\<lparr>ll_depth := ll_depth ll - amount, ll_num_orders := ll_num_orders ll - 1,
             ll_head := (if at_head then n_next (h a) else ll_head ll),
             ll_tail := (if at_tail then n_prev (h a) else ll_tail ll)\<rparr>)"
  using assms by (auto simp: ll_remove_def Let_def unlink_def)

lemma ll_remove_full:
  assumes q: "queue h ll as" and a: "a \<in> set as"
    and ids: "\<forall>b \<in> set as. b \<noteq> a \<longrightarrow> n_order_id (h b) \<noteq> n_order_id (h a)"
    and amt: "amount = n_size (h a)"
  shows "\<exists>ll'. ll_remove h ll a amount = Inr (unlink (h(a := (h a)\<lparr>n_size := 0\<rparr>)) a, ll') \<and>
           queue (unlink (h(a := (h a)\<lparr>n_size := 0\<rparr>)) a) ll' (remove1 a as) \<and>
           ll_price ll' = ll_price ll"
proof -
  let ?h1 = "h(a := (h a)\<lparr>n_size := 0\<rparr>)"
  from a obtain xs ys where as: "as = xs @ a # ys" by (auto dest: split_list)
  from q have ch: "is_chain h None (ll_head ll) as" and d: "distinct as"
    and tl: "ll_tail ll = Some (last as)" and num: "ll_num_orders ll = int (length as)"
    and dep: "ll_depth ll = sum_list (map (\<lambda>a. n_size (h a)) as)"
    using a by (auto simp: queue_def)
  from is_chain_head [OF ch] as have hd: "ll_head ll = Some (hd as)" by (cases xs) auto
  from is_chain_links [OF ch [unfolded as]]
  have nx: "n_next (h a) = (case ys of [] \<Rightarrow> None | y # _ \<Rightarrow> Some y)"
    and pv: "n_prev (h a) = (if xs = [] then None else Some (last xs))" by auto
  have ch1: "is_chain ?h1 None (ll_head ll) (xs @ a # ys)"
    using ch as is_chain_frame [of as ?h1 h None "ll_head ll"] by simp
  have he: "node_eq ?h1 a (ll_head ll) \<longleftrightarrow> xs = []"
  proof -
    have "node_eq ?h1 a (ll_head ll) \<longleftrightarrow> ll_head ll = Some a"
      using ids hd as by (intro node_eq_iff) (cases xs; auto)
    also have "\<dots> \<longleftrightarrow> xs = []" using hd as d by (cases xs) auto
    finally show ?thesis .
  qed
  have te: "node_eq ?h1 a (ll_tail ll) \<longleftrightarrow> ys = []"
  proof -
    have "last as \<in> set as" using a by (cases as) auto
    then have "node_eq ?h1 a (ll_tail ll) \<longleftrightarrow> ll_tail ll = Some a"
      using ids tl by (intro node_eq_iff) auto
    also have "\<dots> \<longleftrightarrow> ys = []" using tl as d by (cases ys rule: rev_cases) auto
    finally show ?thesis .
  qed
  let ?ll' = "ll\<lparr>ll_depth := ll_depth ll - amount, ll_num_orders := ll_num_orders ll - 1,
             ll_head := (if xs = [] then n_next (h a) else ll_head ll),
             ll_tail := (if ys = [] then n_prev (h a) else ll_tail ll)\<rparr>"
  have rm: "ll_remove h ll a amount = Inr (unlink ?h1 a, ?ll')"
    using nx by (intro ll_remove_unfold [OF amt he te]) simp
  have "is_chain (unlink ?h1 a) None (if xs = [] then n_next (?h1 a) else ll_head ll) (xs @ ys)"
    using d as by (intro is_chain_unlink [OF ch1]) auto
  then have c': "is_chain (unlink ?h1 a) None (ll_head ?ll') (xs @ ys)"
    by (cases "xs = []") simp_all
  have "\<forall>z \<in> set (xs @ ys). n_size (unlink ?h1 a z) = n_size (h z)"
  proof
    fix z assume "z \<in> set (xs @ ys)"
    with d as have "z \<noteq> a" by auto
    with content_fields [OF unlink_content [of ?h1 a z]] show "n_size (unlink ?h1 a z) = n_size (h z)"
      by simp
  qed
  then have "sum_list (map (\<lambda>z. n_size (unlink ?h1 a z)) (xs @ ys)) =
             sum_list (map (\<lambda>z. n_size (h z)) (xs @ ys))"
    by (rule sum_list_cong_size)
  with dep as amt have dep': "ll_depth ?ll' = sum_list (map (\<lambda>z. n_size (unlink ?h1 a z)) (xs @ ys))"
    by simp
  have tl': "ll_tail ?ll' = (if xs @ ys = [] then None else Some (last (xs @ ys)))"
    using tl as pv by (cases ys rule: rev_cases) auto
  have "queue (unlink ?h1 a) ?ll' (xs @ ys)"
    unfolding queue_def using c' dep' tl' d as num by auto
  moreover have "remove1 a as = xs @ ys" using d as by (simp add: remove1_append)
  ultimately show ?thesis using rm by auto
qed

lemma unlink_outside:
  assumes "is_chain h None c as" and "a \<in> set as" and "z \<notin> set as"
  shows "unlink h a z = h z"
proof -
  from assms(2) obtain xs ys where as: "as = xs @ a # ys" by (auto dest: split_list)
  from is_chain_links [OF assms(1) [unfolded as]] assms(3) as
  show ?thesis by (intro unlink_other) (auto split: list.splits if_splits)
qed


section \<open>Well-formed books: lemmas\<close>

lemma level_inv_iff:
  "level_inv h nf ords (s, p, ll) \<longleftrightarrow>
     (\<exists>as. as \<noteq> [] \<and> ll_price ll = p \<and> queue h ll as \<and>
        (\<forall>a \<in> set as. a < nf \<and> n_side (h a) = s \<and> n_price (h a) = p \<and>
           n_size (h a) \<noteq> 0 \<and> map_of ords (n_order_id (h a)) = Some a))"
proof
  assume l: "level_inv h nf ords (s, p, ll)"
  then have q: "queue h ll (ll_nodes h ll)" by (simp add: level_inv_def queue_inv_def)
  with l have "ll_nodes h ll \<noteq> []" by (auto simp: level_inv_def queue_def)
  with l q show "\<exists>as. as \<noteq> [] \<and> ll_price ll = p \<and> queue h ll as \<and>
        (\<forall>a \<in> set as. a < nf \<and> n_side (h a) = s \<and> n_price (h a) = p \<and>
           n_size (h a) \<noteq> 0 \<and> map_of ords (n_order_id (h a)) = Some a)"
    by (intro exI [of _ "ll_nodes h ll"]) (simp add: level_inv_def)
next
  assume "\<exists>as. as \<noteq> [] \<and> ll_price ll = p \<and> queue h ll as \<and>
        (\<forall>a \<in> set as. a < nf \<and> n_side (h a) = s \<and> n_price (h a) = p \<and>
           n_size (h a) \<noteq> 0 \<and> map_of ords (n_order_id (h a)) = Some a)"
  then obtain as where as: "as \<noteq> []" "ll_price ll = p" "queue h ll as"
    "\<forall>a \<in> set as. a < nf \<and> n_side (h a) = s \<and> n_price (h a) = p \<and>
           n_size (h a) \<noteq> 0 \<and> map_of ords (n_order_id (h a)) = Some a" by blast
  from as(3) have n: "ll_nodes h ll = as" by (rule queue_nodes)
  from as(1,3) have "0 < ll_num_orders ll" by (simp add: queue_def)
  with as n show "level_inv h nf ords (s, p, ll)"
    by (simp add: level_inv_def queue_inv_def)
qed

lemma level_inv_nodes:
  assumes "level_inv h nf ords (s, p, ll)" and "a \<in> set (ll_nodes h ll)"
  shows "a < nf" "n_side (h a) = s" "n_price (h a) = p" "n_size (h a) \<noteq> 0"
    "map_of ords (n_order_id (h a)) = Some a"
  using assms by (auto simp: level_inv_def)

lemma level_inv_queue:
  "level_inv h nf ords (s, p, ll) \<Longrightarrow> queue h ll (ll_nodes h ll)"
  by (simp add: level_inv_def queue_inv_def)

lemma queue_frame_eq:
  "queue h ll as \<Longrightarrow> \<forall>a \<in> set as. h' a = h a \<Longrightarrow> queue h' ll as"
  by (erule queue_frame) simp

lemma level_inv_frame:
  assumes l: "level_inv h nf ords (s, p, ll)"
    and h': "\<forall>a \<in> set (ll_nodes h ll). h' a = h a"
    and nf: "nf \<le> nf'"
    and o': "\<forall>a \<in> set (ll_nodes h ll). map_of ords' (n_order_id (h a)) = Some a"
  shows "level_inv h' nf' ords' (s, p, ll)" and "ll_nodes h' ll = ll_nodes h ll"
proof -
  from level_inv_queue [OF l] h' have q: "queue h' ll (ll_nodes h ll)" by (rule queue_frame_eq)
  then show n: "ll_nodes h' ll = ll_nodes h ll" by (rule queue_nodes)
  from l have "ll_price ll = p" "0 < ll_num_orders ll" by (auto simp: level_inv_def)
  with q n level_inv_nodes [OF l] h' nf o' show "level_inv h' nf' ords' (s, p, ll)"
    by (fastforce simp: level_inv_def queue_inv_def)
qed

lemma level_nodes_disjoint:
  assumes "level_inv h nf ords (s, p, ll)" and "level_inv h nf ords (s', p', ll')"
    and "a \<in> set (ll_nodes h ll)" and "a \<in> set (ll_nodes h ll')"
  shows "s = s' \<and> p = p'"
  using level_inv_nodes(2,3) [OF assms(1,3)] level_inv_nodes(2,3) [OF assms(2,4)] by simp

lemma update_fresh: "map_of al k = None \<Longrightarrow> AList.update k v al = al @ [(k, v)]"
  by (induction al) (auto split: if_splits)

lemma index_invI:
  "n_order_id (h a) = i \<Longrightarrow> (n_side (h a), n_price (h a), ll) \<in> lv \<Longrightarrow>
   a \<in> set (ll_nodes h ll) \<Longrightarrow> index_inv h lv (i, a)"
  by (auto simp: index_inv_def)

lemma index_invE:
  assumes "index_inv h lv (i, a)"
  obtains ll where "n_order_id (h a) = i" and "(n_side (h a), n_price (h a), ll) \<in> lv"
    and "a \<in> set (ll_nodes h ll)"
  using assms by (auto simp: index_inv_def)

lemma inv_add:
  assumes lv: "\<forall>l \<in> lv. level_inv h nf ords l"
    and ix: "\<forall>e \<in> set ords. index_inv h lv e"
    and u: "uniq_levels lv"
    and fresh: "map_of ords (m_order_id msg) = None"
    and tgt: "(m_side msg, m_price msg, ll) \<in> lv \<or>
              ((\<forall>l. (m_side msg, m_price msg, l) \<notin> lv) \<and> ll = OrderLinkedList_init (m_price msg))"
    and z: "m_size msg \<noteq> 0"
    and ap: "ll_append h nf ll msg = (h', ll')"
    and lv': "lv' = {x \<in> lv. \<not> (fst x = m_side msg \<and> fst (snd x) = m_price msg)} \<union>
                    {(m_side msg, m_price msg, ll')}"
    and ords': "ords' = AList.update (m_order_id msg) nf ords"
  shows "\<forall>l \<in> lv'. level_inv h' (Suc nf) ords' l" and "\<forall>e \<in> set ords'. index_inv h' lv' e"
proof -
  let ?s = "m_side msg" and ?p = "m_price msg" and ?i = "m_order_id msg"
  define as where "as = ll_nodes h ll"
  have q: "queue h ll as" and pr: "ll_price ll = ?p"
    and asP: "\<forall>a \<in> set as. a < nf \<and> n_side (h a) = ?s \<and> n_price (h a) = ?p \<and>
                n_size (h a) \<noteq> 0 \<and> map_of ords (n_order_id (h a)) = Some a"
  proof -
    from tgt show "queue h ll as"
    proof
      assume "(?s, ?p, ll) \<in> lv"
      with lv have "level_inv h nf ords (?s, ?p, ll)" by blast
      then show ?thesis unfolding as_def by (rule level_inv_queue)
    next
      assume "(\<forall>l. (?s, ?p, l) \<notin> lv) \<and> ll = OrderLinkedList_init ?p"
      then have "ll = OrderLinkedList_init ?p" by simp
      moreover have "queue h (OrderLinkedList_init ?p) []" by (rule queue_init)
      ultimately show ?thesis
        by (simp add: as_def ll_nodes_def OrderLinkedList_init_def)
    qed
    from tgt lv show "ll_price ll = ?p"
      by (auto simp: level_inv_def OrderLinkedList_init_def)
    from tgt show "\<forall>a \<in> set as. a < nf \<and> n_side (h a) = ?s \<and> n_price (h a) = ?p \<and>
                n_size (h a) \<noteq> 0 \<and> map_of ords (n_order_id (h a)) = Some a"
    proof
      assume "(?s, ?p, ll) \<in> lv"
      with lv have "level_inv h nf ords (?s, ?p, ll)" by blast
      then show ?thesis unfolding as_def by (simp add: level_inv_def)
    next
      assume "(\<forall>l. (?s, ?p, l) \<notin> lv) \<and> ll = OrderLinkedList_init ?p"
      then show ?thesis by (simp add: as_def ll_nodes_def OrderLinkedList_init_def)
    qed
  qed
  from asP have n: "nf \<notin> set as" by auto
  from q have tl: "ll_tail ll = (if as = [] then None else Some (last as))"
    by (simp add: queue_def)
  then have tl_nf: "ll_tail ll \<noteq> Some nf" using n by (auto split: if_splits)
  from tl have tl_in: "\<And>z. ll_tail ll = Some z \<Longrightarrow> z \<in> set as" by (auto split: if_splits)
  have q': "queue h' ll' (as @ [nf])" by (rule ll_append_queue [OF q n ap])
  then have nodes': "ll_nodes h' ll' = as @ [nf]" by (rule queue_nodes)
  have hn: "h' nf = (OrderNode_init msg)\<lparr>n_prev := ll_tail ll\<rparr>"
    by (rule ll_append_new [OF ap tl_nf])
  have ho: "h' z = h z" if "z \<noteq> nf" "z \<notin> set as" for z
    using ll_append_old [OF ap that(1)] tl_in that(2) by auto
  have hc: "n_side (h' z) = n_side (h z) \<and> n_price (h' z) = n_price (h z) \<and>
            n_size (h' z) = n_size (h z) \<and> n_order_id (h' z) = n_order_id (h z)"
    if "z \<noteq> nf" for z
    using ll_append_old [OF ap that] by simp
  have mo: "map_of ords' j = Some a" if "map_of ords j = Some a" for j a
    using that fresh by (auto simp: ords' update_conv')
  have mi: "map_of ords' ?i = Some nf" by (simp add: ords' update_conv')
  have pr': "ll_price ll' = ?p" using ll_append_price [OF ap] pr by simp
  have target: "level_inv h' (Suc nf) ords' (?s, ?p, ll')"
  proof -
    have "\<forall>a \<in> set (as @ [nf]). a < Suc nf \<and> n_side (h' a) = ?s \<and> n_price (h' a) = ?p \<and>
            n_size (h' a) \<noteq> 0 \<and> map_of ords' (n_order_id (h' a)) = Some a"
    proof
      fix a assume "a \<in> set (as @ [nf])"
      then consider "a = nf" | "a \<in> set as" "a \<noteq> nf" using n by auto
      then show "a < Suc nf \<and> n_side (h' a) = ?s \<and> n_price (h' a) = ?p \<and>
            n_size (h' a) \<noteq> 0 \<and> map_of ords' (n_order_id (h' a)) = Some a"
      proof cases
        case 1
        with hn z mi show ?thesis by (simp add: OrderNode_init_def)
      next
        case 2
        with asP hc [OF 2(2)] mo show ?thesis by (auto simp: less_Suc_eq)
      qed
    qed
    with q' pr' show ?thesis unfolding level_inv_iff by (intro exI [of _ "as @ [nf]"]) simp
  qed
  have other: "level_inv h' (Suc nf) ords' (s0, p0, l0) \<and> ll_nodes h' l0 = ll_nodes h l0"
    if "(s0, p0, l0) \<in> lv" "\<not> (s0 = ?s \<and> p0 = ?p)" for s0 p0 l0
  proof -
    from lv that(1) have l0: "level_inv h nf ords (s0, p0, l0)" by blast
    have "\<forall>a \<in> set (ll_nodes h l0). h' a = h a"
    proof
      fix a assume a: "a \<in> set (ll_nodes h l0)"
      from level_inv_nodes(1-3) [OF l0 a] that(2) asP have "a \<noteq> nf" "a \<notin> set as" by auto
      then show "h' a = h a" by (rule ho)
    qed
    moreover have "\<forall>a \<in> set (ll_nodes h l0). map_of ords' (n_order_id (h a)) = Some a"
      using level_inv_nodes(5) [OF l0] mo by blast
    ultimately show ?thesis using level_inv_frame [OF l0, of h' "Suc nf" ords'] by simp
  qed
  show "\<forall>l \<in> lv'. level_inv h' (Suc nf) ords' l"
    unfolding lv' using target other by auto
  show "\<forall>e \<in> set ords'. index_inv h' lv' e"
  proof
    fix e assume e: "e \<in> set ords'"
    obtain j a where ja: "e = (j, a)" by (cases e)
    from e ja have "(j = ?i \<and> a = nf) \<or> (j, a) \<in> set ords"
      by (auto simp: ords' update_fresh [OF fresh])
    then show "index_inv h' lv' e"
    proof
      assume "j = ?i \<and> a = nf"
      moreover have "index_inv h' lv' (?i, nf)"
        by (rule index_invI [where ll = ll']) (simp_all add: hn OrderNode_init_def lv' nodes')
      ultimately show ?thesis using ja by simp
    next
      assume "(j, a) \<in> set ords"
      with ix have "index_inv h lv (j, a)" by blast
      then obtain l0 where id: "n_order_id (h a) = j"
        and l0: "(n_side (h a), n_price (h a), l0) \<in> lv" and a: "a \<in> set (ll_nodes h l0)"
        by (rule index_invE)
      from lv l0 have li: "level_inv h nf ords (n_side (h a), n_price (h a), l0)" by blast
      from level_inv_nodes(1) [OF li a] have ne: "a \<noteq> nf" by simp
      note c = hc [OF ne]
      show ?thesis
      proof (cases "n_side (h a) = ?s \<and> n_price (h a) = ?p")
        case True
        with tgt l0 have "(?s, ?p, ll) \<in> lv" by auto
        with l0 True u have "l0 = ll" by (auto simp: uniq_levels_def)
        with a have "a \<in> set (ll_nodes h' ll')" by (simp add: nodes' as_def)
        with True c id have "index_inv h' lv' (j, a)"
          by (intro index_invI [where ll = ll']) (simp_all add: lv')
        with ja show ?thesis by simp
      next
        case False
        with other [OF l0] a have "a \<in> set (ll_nodes h' l0)" by simp
        moreover from False l0 c have "(n_side (h' a), n_price (h' a), l0) \<in> lv'"
          by (auto simp: lv')
        ultimately have "index_inv h' lv' (j, a)"
          using c id by (intro index_invI [where ll = l0]) simp_all
        with ja show ?thesis by simp
      qed
    qed
  qed
qed

lemma queue_resize_frame:
  assumes q: "queue h ll as" and a: "a \<in> set as"
    and links: "\<forall>z \<in> set as. n_prev (h' z) = n_prev (h z) \<and> n_next (h' z) = n_next (h z)"
    and sizes: "\<forall>z \<in> set as. z \<noteq> a \<longrightarrow> n_size (h' z) = n_size (h z)"
  shows "queue h' (ll\<lparr>ll_depth := ll_depth ll - (n_size (h a) - n_size (h' a))\<rparr>) as"
proof -
  let ?h1 = "h(a := (h a)\<lparr>n_size := n_size (h' a)\<rparr>)"
  have "queue ?h1 (ll\<lparr>ll_depth := ll_depth ll - (n_size (h a) - n_size (h' a))\<rparr>) as"
    by (rule queue_resize [OF q a])
  moreover have "\<forall>z \<in> set as. n_prev (h' z) = n_prev (?h1 z) \<and> n_next (h' z) = n_next (?h1 z) \<and>
      n_size (h' z) = n_size (?h1 z)"
    using links sizes by auto
  ultimately show ?thesis by (rule queue_frame)
qed

lemma inv_resize:
  assumes lv: "\<forall>l \<in> lv. level_inv h nf ords l"
    and ix: "\<forall>e \<in> set ords. index_inv h lv e"
    and u: "uniq_levels lv"
    and lvl: "(n_side (h a), n_price (h a), ll) \<in> lv"
    and ain: "a \<in> set (ll_nodes h ll)"
    and sz: "sz \<noteq> 0"
    and h': "h' = h(a := (h a)\<lparr>n_size := sz, n_ts_recv := r\<rparr>)"
    and ll': "ll' = ll\<lparr>ll_depth := ll_depth ll - (n_size (h a) - sz)\<rparr>"
    and lv': "lv' = {x \<in> lv. \<not> (fst x = n_side (h a) \<and> fst (snd x) = n_price (h a))} \<union>
                    {(n_side (h a), n_price (h a), ll')}"
  shows "\<forall>l \<in> lv'. level_inv h' nf ords l" and "\<forall>e \<in> set ords. index_inv h' lv' e"
    and "ll_nodes h' ll' = ll_nodes h ll"
proof -
  let ?s = "n_side (h a)" and ?p = "n_price (h a)"
  define as where "as = ll_nodes h ll"
  from lv lvl have li: "level_inv h nf ords (?s, ?p, ll)" by blast
  then have q: "queue h ll as" unfolding as_def by (rule level_inv_queue)
  from ain have a: "a \<in> set as" by (simp add: as_def)
  have hc: "n_side (h' z) = n_side (h z) \<and> n_price (h' z) = n_price (h z) \<and>
            n_order_id (h' z) = n_order_id (h z) \<and> n_prev (h' z) = n_prev (h z) \<and>
            n_next (h' z) = n_next (h z)" for z
    by (simp add: h')
  have hs: "n_size (h' z) = (if z = a then sz else n_size (h z))" for z by (simp add: h')
  have "queue h' (ll\<lparr>ll_depth := ll_depth ll - (n_size (h a) - n_size (h' a))\<rparr>) as"
    by (rule queue_resize_frame [OF q a]) (simp_all add: hc hs)
  then have q': "queue h' ll' as" by (simp add: ll' hs)
  then have nodes': "ll_nodes h' ll' = as" by (rule queue_nodes)
  then show "ll_nodes h' ll' = ll_nodes h ll" by (simp add: as_def)
  from li have asne: "as \<noteq> []" and pr: "ll_price ll = ?p" using a by (auto simp: level_inv_def)
  have target: "level_inv h' nf ords (?s, ?p, ll')"
  proof -
    have "\<forall>z \<in> set as. z < nf \<and> n_side (h' z) = ?s \<and> n_price (h' z) = ?p \<and>
            n_size (h' z) \<noteq> 0 \<and> map_of ords (n_order_id (h' z)) = Some z"
      using level_inv_nodes [OF li] sz by (auto simp: as_def hc hs)
    with q' asne pr show ?thesis unfolding level_inv_iff
      by (intro exI [of _ as]) (simp add: ll')
  qed
  have other: "level_inv h' nf ords (s0, p0, l0) \<and> ll_nodes h' l0 = ll_nodes h l0"
    if "(s0, p0, l0) \<in> lv" "\<not> (s0 = ?s \<and> p0 = ?p)" for s0 p0 l0
  proof -
    from lv that(1) have l0: "level_inv h nf ords (s0, p0, l0)" by blast
    have "a \<notin> set (ll_nodes h l0)" using level_nodes_disjoint [OF l0 li _ ain] that(2) by auto
    then have "\<forall>z \<in> set (ll_nodes h l0). h' z = h z" by (auto simp: h')
    moreover have "\<forall>z \<in> set (ll_nodes h l0). map_of ords (n_order_id (h z)) = Some z"
      using level_inv_nodes(5) [OF l0] by blast
    ultimately show ?thesis using level_inv_frame [OF l0, of h' nf ords] by simp
  qed
  show "\<forall>l \<in> lv'. level_inv h' nf ords l"
    unfolding lv' using target other by auto
  show "\<forall>e \<in> set ords. index_inv h' lv' e"
  proof
    fix e assume e: "e \<in> set ords"
    obtain j b where jb: "e = (j, b)" by (cases e)
    with e ix have "index_inv h lv (j, b)" by blast
    then obtain l0 where id: "n_order_id (h b) = j"
      and l0: "(n_side (h b), n_price (h b), l0) \<in> lv" and b: "b \<in> set (ll_nodes h l0)"
      by (rule index_invE)
    have "index_inv h' lv' (j, b)"
    proof (cases "n_side (h b) = ?s \<and> n_price (h b) = ?p")
      case True
      with l0 lvl u have "l0 = ll" by (auto simp: uniq_levels_def)
      with b have "b \<in> set (ll_nodes h' ll')" by (simp add: nodes' as_def)
      with True id show ?thesis
        by (intro index_invI [where ll = ll']) (simp_all add: lv' hc)
    next
      case False
      with other [OF l0] b have "b \<in> set (ll_nodes h' l0)" by simp
      moreover from False l0 have "(n_side (h' b), n_price (h' b), l0) \<in> lv'"
        by (auto simp: lv' hc)
      ultimately show ?thesis using id by (intro index_invI [where ll = l0]) (simp_all add: hc)
    qed
    with jb show "index_inv h' lv' e" by simp
  qed
qed

lemma set_delete_distinct:
  "distinct (map fst al) \<Longrightarrow> set (AList.delete k al) = {x \<in> set al. fst x \<noteq> k}"
  by (induction al) (auto simp: AList.delete_eq)

lemma inv_remove:
  assumes lv: "\<forall>l \<in> lv. level_inv h nf ords l"
    and ix: "\<forall>e \<in> set ords. index_inv h lv e"
    and u: "uniq_levels lv"
    and d: "distinct (map fst ords)"
    and e: "(i, a) \<in> set ords"
    and lvl: "(n_side (h a), n_price (h a), ll) \<in> lv"
    and ain: "a \<in> set (ll_nodes h ll)"
    and h': "h' = unlink (h(a := (h a)\<lparr>n_size := 0\<rparr>)) a"
    and q': "queue h' ll' (remove1 a (ll_nodes h ll))"
    and pr': "ll_price ll' = ll_price ll"
    and lv': "lv' = {x \<in> lv. \<not> (fst x = n_side (h a) \<and> fst (snd x) = n_price (h a))} \<union>
                    (if ll_num_orders ll' = 0 then {} else {(n_side (h a), n_price (h a), ll')})"
    and ords': "ords' = AList.delete i ords"
  shows "\<forall>l \<in> lv'. level_inv h' nf ords' l" and "\<forall>e \<in> set ords'. index_inv h' lv' e"
proof -
  let ?s = "n_side (h a)" and ?p = "n_price (h a)"
  let ?h1 = "h(a := (h a)\<lparr>n_size := 0\<rparr>)"
  define as where "as = ll_nodes h ll"
  from lv lvl have li: "level_inv h nf ords (?s, ?p, ll)" by blast
  then have q: "queue h ll as" unfolding as_def by (rule level_inv_queue)
  from ain have a: "a \<in> set as" by (simp add: as_def)
  from q have dist: "distinct as" by (simp add: queue_def)
  from ix e have ida: "n_order_id (h a) = i" by (auto simp: index_inv_def)
  have hc: "n_side (h' z) = n_side (h z) \<and> n_price (h' z) = n_price (h z) \<and>
            n_order_id (h' z) = n_order_id (h z)" for z
    using content_fields [OF unlink_content [of ?h1 a z]] by (simp add: h')
  have hs: "n_size (h' z) = n_size (h z)" if "z \<noteq> a" for z
    using content_fields [OF unlink_content [of ?h1 a z]] that by (simp add: h')
  have ho: "h' z = h z" if "z \<notin> set as" for z
  proof -
    from q have "is_chain h None (ll_head ll) as" by (simp add: queue_def)
    then have "is_chain ?h1 None (ll_head ll) as"
      using is_chain_frame [of as ?h1 h None "ll_head ll"] by simp
    from unlink_outside [OF this a that] that a show ?thesis by (auto simp: h')
  qed
  from q' have nodes': "ll_nodes h' ll' = remove1 a as" unfolding as_def by (rule queue_nodes)
  have ids: "n_order_id (h z) \<noteq> i" if "z \<in> set as" "z \<noteq> a" for z
  proof
    assume "n_order_id (h z) = i"
    with level_inv_nodes(5) [OF li, of z] level_inv_nodes(5) [OF li, of a] that a ida
    show False by (simp add: as_def)
  qed
  have md: "map_of ords' j = map_of ords j" if "j \<noteq> i" for j
    using that by (simp add: ords' delete_conv')
  have target: "level_inv h' nf ords' (?s, ?p, ll')" if "ll_num_orders ll' \<noteq> 0"
  proof -
    from that q' have ne: "remove1 a as \<noteq> []" by (auto simp: queue_def as_def)
    have "\<forall>z \<in> set (remove1 a as). z < nf \<and> n_side (h' z) = ?s \<and> n_price (h' z) = ?p \<and>
            n_size (h' z) \<noteq> 0 \<and> map_of ords' (n_order_id (h' z)) = Some z"
    proof
      fix z assume "z \<in> set (remove1 a as)"
      with dist have z: "z \<in> set as" "z \<noteq> a" by auto
      with level_inv_nodes [OF li, of z] hc [of z] hs [of z] ids [of z] md
      show "z < nf \<and> n_side (h' z) = ?s \<and> n_price (h' z) = ?p \<and>
            n_size (h' z) \<noteq> 0 \<and> map_of ords' (n_order_id (h' z)) = Some z"
        by (simp add: as_def)
    qed
    moreover from li have "ll_price ll = ?p" by (simp add: level_inv_def)
    ultimately show ?thesis using q' ne pr' unfolding level_inv_iff as_def
      by (intro exI [of _ "remove1 a (ll_nodes h ll)"]) simp
  qed
  have other: "level_inv h' nf ords' (s0, p0, l0) \<and> ll_nodes h' l0 = ll_nodes h l0"
    if "(s0, p0, l0) \<in> lv" "\<not> (s0 = ?s \<and> p0 = ?p)" for s0 p0 l0
  proof -
    from lv that(1) have l0: "level_inv h nf ords (s0, p0, l0)" by blast
    have dis: "z \<notin> set as" if "z \<in> set (ll_nodes h l0)" for z
      using level_nodes_disjoint [OF l0 li that] \<open>\<not> (s0 = ?s \<and> p0 = ?p)\<close>
      by (auto simp: as_def)
    then have "\<forall>z \<in> set (ll_nodes h l0). h' z = h z" using ho by blast
    moreover have "\<forall>z \<in> set (ll_nodes h l0). map_of ords' (n_order_id (h z)) = Some z"
    proof
      fix z assume z: "z \<in> set (ll_nodes h l0)"
      from level_inv_nodes(5) [OF l0 z] have m: "map_of ords (n_order_id (h z)) = Some z" .
      have "n_order_id (h z) \<noteq> i"
      proof
        assume "n_order_id (h z) = i"
        with m level_inv_nodes(5) [OF li ain] ida have "z = a" by simp
        with dis [OF z] a show False by simp
      qed
      with m md show "map_of ords' (n_order_id (h z)) = Some z" by simp
    qed
    ultimately show ?thesis using level_inv_frame [OF l0, of h' nf ords'] by simp
  qed
  show "\<forall>l \<in> lv'. level_inv h' nf ords' l"
    unfolding lv' using target other by (auto split: if_splits)
  show "\<forall>e \<in> set ords'. index_inv h' lv' e"
  proof
    fix e' assume e': "e' \<in> set ords'"
    obtain j b where jb: "e' = (j, b)" by (cases e')
    with e' d have mem: "(j, b) \<in> set ords" and ji: "j \<noteq> i"
      by (auto simp: ords' set_delete_distinct)
    with ix have "index_inv h lv (j, b)" by blast
    then obtain l0 where id: "n_order_id (h b) = j"
      and l0: "(n_side (h b), n_price (h b), l0) \<in> lv" and b: "b \<in> set (ll_nodes h l0)"
      by (rule index_invE)
    from id ji ida have ba: "b \<noteq> a" by auto
    have "index_inv h' lv' (j, b)"
    proof (cases "n_side (h b) = ?s \<and> n_price (h b) = ?p")
      case True
      with l0 lvl u have "l0 = ll" by (auto simp: uniq_levels_def)
      with b ba have bin: "b \<in> set (ll_nodes h' ll')" by (simp add: nodes' as_def)
      then have "ll_num_orders ll' \<noteq> 0" using q' nodes' by (auto simp: queue_def as_def)
      with True id bin show ?thesis
        by (intro index_invI [where ll = ll']) (simp_all add: lv' hc)
    next
      case False
      with other [OF l0] b have "b \<in> set (ll_nodes h' l0)" by simp
      moreover from False l0 have "(n_side (h' b), n_price (h' b), l0) \<in> lv'"
        by (auto simp: lv' hc)
      ultimately show ?thesis using id by (intro index_invI [where ll = l0]) (simp_all add: hc)
    qed
    with jb show "index_inv h' lv' e'" by simp
  qed
qed

lemma side_dict_cases:
  assumes "side_dict b s = Inr t"
  obtains "s = ''A''" "t = offers b" | "s = ''B''" "t = bids b"
  using assms by (auto simp: side_dict_def split: if_splits)

lemma set_side_dict_fields [simp]:
  "heap (set_side_dict s t b) = heap b"
  "orders (set_side_dict s t b) = orders b"
  "next_free (set_side_dict s t b) = next_free b"
  "ts_last_update (set_side_dict s t b) = ts_last_update b"
  by (simp_all add: set_side_dict_def)

lemma set_side_dict_trees:
  "side_dict b s = Inr t0 \<Longrightarrow> bids b' = bids b \<Longrightarrow> offers b' = offers b \<Longrightarrow>
   (s = ''A'' \<longrightarrow> offers (set_side_dict s t b') = t \<and> bids (set_side_dict s t b') = bids b) \<and>
   (s = ''B'' \<longrightarrow> bids (set_side_dict s t b') = t \<and> offers (set_side_dict s t b') = offers b)"
  by (auto simp: set_side_dict_def)

lemma in_all_levels:
  "(s, p, l) \<in> set (all_levels b) \<longleftrightarrow>
     (s = ''B'' \<and> (p, l) \<in> set (bids b)) \<or> (s = ''A'' \<and> (p, l) \<in> set (offers b))"
  by (auto simp: all_levels_def)

lemma side_dict_levels:
  "side_dict b s = Inr t \<Longrightarrow> (s, p, l) \<in> set (all_levels b) \<longleftrightarrow> (p, l) \<in> set t"
  by (erule side_dict_cases) (auto simp: in_all_levels)

lemma uniq_all_levels:
  "keys_sorted (bids b) \<Longrightarrow> keys_sorted (offers b) \<Longrightarrow> uniq_levels (set (all_levels b))"
  unfolding uniq_levels_def in_all_levels by (auto simp: keys_sorted_map_of)

lemma levels_replace:
  assumes sd: "side_dict b s = Inr t" and ks: "keys_sorted t"
    and same: "bids b' = bids b" "offers b' = offers b"
    and t': "set t' = {x \<in> set t. fst x \<noteq> p} \<union> new"
  shows "set (all_levels (set_side_dict s t' b')) =
           {x \<in> set (all_levels b). \<not> (fst x = s \<and> fst (snd x) = p)} \<union> Pair s ` new"
  using sd
proof (rule side_dict_cases)
  assume "s = ''A''" "t = offers b"
  with same t' show ?thesis
    by (auto simp: all_levels_def set_side_dict_def)
next
  assume "s = ''B''" "t = bids b"
  with same t' show ?thesis
    by (auto simp: all_levels_def set_side_dict_def)
qed

lemma keys_sorted_replace:
  assumes sd: "side_dict b s = Inr t" and same: "bids b' = bids b" "offers b' = offers b"
    and ks: "keys_sorted (bids b)" "keys_sorted (offers b)" "keys_sorted t'"
  shows "keys_sorted (bids (set_side_dict s t' b'))"
    and "keys_sorted (offers (set_side_dict s t' b'))"
  using sd by (rule side_dict_cases; simp add: set_side_dict_def same ks)+

lemma book_invI:
  assumes "keys_sorted (bids b)" "keys_sorted (offers b)" "distinct (map fst (orders b))"
    and "\<forall>l \<in> set (all_levels b). level_inv (heap b) (next_free b) (orders b) l"
    and "\<forall>e \<in> set (orders b). index_inv (heap b) (set (all_levels b)) e"
  shows "book_inv b"
  using assms by (simp add: book_inv_def)

lemma book_inv_find:
  assumes inv: "book_inv b" and m: "map_of (orders b) i = Some a"
  obtains t ll where "side_dict b (n_side (heap b a)) = Inr t" and "keys_sorted t"
    and "map_of t (n_price (heap b a)) = Some ll"
    and "(n_side (heap b a), n_price (heap b a), ll) \<in> set (all_levels b)"
    and "a \<in> set (ll_nodes (heap b) ll)" and "(i, a) \<in> set (orders b)"
    and "n_order_id (heap b a) = i"
proof -
  from m have e: "(i, a) \<in> set (orders b)" by (rule map_of_SomeD)
  with inv have "index_inv (heap b) (set (all_levels b)) (i, a)" by (auto simp: book_inv_def)
  then obtain ll where id: "n_order_id (heap b a) = i"
    and l: "(n_side (heap b a), n_price (heap b a), ll) \<in> set (all_levels b)"
    and a: "a \<in> set (ll_nodes (heap b) ll)" by (rule index_invE)
  from l have "n_side (heap b a) = ''A'' \<or> n_side (heap b a) = ''B''"
    by (auto simp: in_all_levels)
  then obtain t where sd: "side_dict b (n_side (heap b a)) = Inr t"
    by (auto simp: side_dict_def)
  from sd inv have ks: "keys_sorted t" by (auto simp: book_inv_def elim!: side_dict_cases)
  from side_dict_levels [OF sd] l have "(n_price (heap b a), ll) \<in> set t" by simp
  with ks have "map_of t (n_price (heap b a)) = Some ll" by (simp add: keys_sorted_map_of)
  with sd ks l a e id that show ?thesis by blast
qed

lemma add_Ok:
  assumes "OrderBook_add b m = Ok b'"
  obtains t h' ll' where "map_of (orders b) (m_order_id m) = None"
    and "m_price m \<noteq> UNDEF_PRICE"
    and "side_dict b (m_side m) = Inr t"
    and "ll_append (heap b) (next_free b)
           (case map_of t (m_price m) of None \<Rightarrow> OrderLinkedList_init (m_price m) | Some l \<Rightarrow> l) m
         = (h', ll')"
    and "b' = set_side_dict (m_side m) (sd_setitem (m_price m) ll' t)
                (b\<lparr>heap := h', next_free := Suc (next_free b),
                   orders := AList.update (m_order_id m) (next_free b) (orders b)\<rparr>)"
  using assms
  by (auto simp: OrderBook_add_def Let_def split: if_splits sum.splits prod.splits)

lemma add_book_inv:
  assumes inv: "book_inv b" and z: "m_size m \<noteq> 0" and ok: "OrderBook_add b m = Ok b'"
  shows "book_inv b'"
proof -
  let ?s = "m_side m" and ?p = "m_price m"
  from ok obtain t h' ll' where fresh: "map_of (orders b) (m_order_id m) = None"
    and sd: "side_dict b ?s = Inr t"
    and ap: "ll_append (heap b) (next_free b)
           (case map_of t ?p of None \<Rightarrow> OrderLinkedList_init ?p | Some l \<Rightarrow> l) m = (h', ll')"
    and b': "b' = set_side_dict ?s (sd_setitem ?p ll' t)
                (b\<lparr>heap := h', next_free := Suc (next_free b),
                   orders := AList.update (m_order_id m) (next_free b) (orders b)\<rparr>)"
    by (rule add_Ok)
  let ?ll = "case map_of t ?p of None \<Rightarrow> OrderLinkedList_init ?p | Some l \<Rightarrow> l"
  let ?b1 = "b\<lparr>heap := h', next_free := Suc (next_free b),
                   orders := AList.update (m_order_id m) (next_free b) (orders b)\<rparr>"
  let ?lv = "set (all_levels b)"
  from inv have ksb: "keys_sorted (bids b)" and kso: "keys_sorted (offers b)"
    and d: "distinct (map fst (orders b))"
    and lv: "\<forall>l \<in> ?lv. level_inv (heap b) (next_free b) (orders b) l"
    and ix: "\<forall>e \<in> set (orders b). index_inv (heap b) ?lv e"
    by (simp_all add: book_inv_def)
  from sd ksb kso have ks: "keys_sorted t" by (auto elim!: side_dict_cases)
  have u: "uniq_levels ?lv" by (rule uniq_all_levels [OF ksb kso])
  have tgt: "(?s, ?p, ?ll) \<in> ?lv \<or>
      ((\<forall>l. (?s, ?p, l) \<notin> ?lv) \<and> ?ll = OrderLinkedList_init ?p)"
    by (cases "map_of t ?p") (auto simp: side_dict_levels [OF sd] keys_sorted_map_of [OF ks])
  have lv': "set (all_levels b') =
      {x \<in> ?lv. \<not> (fst x = ?s \<and> fst (snd x) = ?p)} \<union> {(?s, ?p, ll')}"
    unfolding b'
    using levels_replace [OF sd ks, of ?b1 "sd_setitem ?p ll' t" ?p "{(?p, ll')}"]
    by (simp add: set_sd_setitem [OF ks])
  have fields: "heap b' = h'" "next_free b' = Suc (next_free b)"
    "orders b' = AList.update (m_order_id m) (next_free b) (orders b)"
    by (simp_all add: b')
  from inv_add [OF lv ix u fresh tgt z ap lv' fields(3)]
  have "\<forall>l \<in> set (all_levels b'). level_inv (heap b') (next_free b') (orders b') l"
    and "\<forall>e \<in> set (orders b'). index_inv (heap b') (set (all_levels b')) e"
    by (simp_all add: fields)
  moreover have "keys_sorted (bids b')" "keys_sorted (offers b')"
    unfolding b'
    using keys_sorted_replace [OF sd _ _ ksb kso keys_sorted_sd_setitem [OF ks], of ?b1 ?p ll']
    by simp_all
  moreover have "distinct (map fst (orders b'))"
    using d by (simp add: fields distinct_update)
  ultimately show ?thesis by (intro book_invI)
qed

lemma ll_remove_Inl: "ll_remove h ll a amount = Inl e \<Longrightarrow> amount > n_size (h a)"
  by (auto simp: ll_remove_def Let_def split: if_splits)

lemma ll_remove_Inr: "ll_remove h ll a amount = Inr r \<Longrightarrow> amount \<le> n_size (h a)"
  by (auto simp: ll_remove_def Let_def split: if_splits)

lemma cancel_Ok:
  assumes "OrderBook_cancel b m = Ok b'"
  obtains a t ll h' ll' where "map_of (orders b) (m_order_id m) = Some a"
    and "side_dict b (n_side (heap b a)) = Inr t"
    and "map_of t (n_price (heap b a)) = Some ll"
    and "ll_remove (heap b) ll a (m_size m) = Inr (h', ll')"
    and "b' = (if n_size (h' a) = 0
               then set_side_dict (n_side (h' a))
                      (if ll_num_orders ll' = 0 then sd_delitem (n_price (h' a)) t
                       else sd_setitem (n_price (h' a)) ll' t)
                      (b\<lparr>heap := h', orders := AList.delete (m_order_id m) (orders b)\<rparr>)
               else set_side_dict (n_side (h' a)) (sd_setitem (n_price (h' a)) ll' t)
                      (b\<lparr>heap := h'(a := (h' a)\<lparr>n_ts_recv := m_ts_recv m\<rparr>)\<rparr>))"
  using assms
  by (auto simp: OrderBook_cancel_def split: option.splits sum.splits prod.splits if_splits)

lemma resize_book_inv:
  assumes inv: "book_inv b" and m: "map_of (orders b) i = Some a"
    and sd: "side_dict b (n_side (heap b a)) = Inr t"
    and lk: "map_of t (n_price (heap b a)) = Some ll"
    and sz: "sz \<noteq> 0"
    and b': "b' = set_side_dict (n_side (heap b a))
                    (sd_setitem (n_price (heap b a))
                       (ll\<lparr>ll_depth := ll_depth ll - (n_size (heap b a) - sz)\<rparr>) t)
                    (b\<lparr>heap := (heap b)(a := (heap b a)\<lparr>n_size := sz, n_ts_recv := r\<rparr>)\<rparr>)"
  shows "book_inv b'"
    and "ll_nodes (heap b') (ll\<lparr>ll_depth := ll_depth ll - (n_size (heap b a) - sz)\<rparr>) =
         ll_nodes (heap b) ll"
proof -
  let ?s = "n_side (heap b a)" and ?p = "n_price (heap b a)"
  let ?ll' = "ll\<lparr>ll_depth := ll_depth ll - (n_size (heap b a) - sz)\<rparr>"
  let ?h' = "(heap b)(a := (heap b a)\<lparr>n_size := sz, n_ts_recv := r\<rparr>)"
  let ?b1 = "b\<lparr>heap := ?h'\<rparr>"
  let ?lv = "set (all_levels b)"
  from inv have ksb: "keys_sorted (bids b)" and kso: "keys_sorted (offers b)"
    and d: "distinct (map fst (orders b))"
    and lv: "\<forall>l \<in> ?lv. level_inv (heap b) (next_free b) (orders b) l"
    and ix: "\<forall>e \<in> set (orders b). index_inv (heap b) ?lv e"
    by (simp_all add: book_inv_def)
  have u: "uniq_levels ?lv" by (rule uniq_all_levels [OF ksb kso])
  from inv m obtain t2 ll2 where "side_dict b ?s = Inr t2" and ks2: "keys_sorted t2"
    and "map_of t2 ?p = Some ll2" and lvl2: "(?s, ?p, ll2) \<in> ?lv"
    and ain2: "a \<in> set (ll_nodes (heap b) ll2)"
    by (rule book_inv_find)
  with sd lk have ks: "keys_sorted t" and lvl: "(?s, ?p, ll) \<in> ?lv"
    and ain: "a \<in> set (ll_nodes (heap b) ll)" by auto
  have lv': "set (all_levels b') =
      {x \<in> ?lv. \<not> (fst x = ?s \<and> fst (snd x) = ?p)} \<union> {(?s, ?p, ?ll')}"
    unfolding b'
    using levels_replace [OF sd ks, of ?b1 "sd_setitem ?p ?ll' t" ?p "{(?p, ?ll')}"]
    by (simp add: set_sd_setitem [OF ks])
  have fields: "heap b' = ?h'" "next_free b' = next_free b" "orders b' = orders b"
    by (simp_all add: b')
  from inv_resize [OF lv ix u lvl ain sz refl refl lv', of r]
  have "\<forall>l \<in> set (all_levels b'). level_inv (heap b') (next_free b') (orders b') l"
    and "\<forall>e \<in> set (orders b'). index_inv (heap b') (set (all_levels b')) e"
    and n: "ll_nodes ?h' ?ll' = ll_nodes (heap b) ll"
    by (simp_all add: fields)
  moreover have "keys_sorted (bids b')" "keys_sorted (offers b')"
    unfolding b'
    using keys_sorted_replace [OF sd _ _ ksb kso keys_sorted_sd_setitem [OF ks], of ?b1 ?p ?ll']
    by simp_all
  moreover have "distinct (map fst (orders b'))" using d by (simp add: fields)
  ultimately show "book_inv b'" by (intro book_invI)
  from n show "ll_nodes (heap b') ?ll' = ll_nodes (heap b) ll" by (simp add: fields)
qed

lemma cancel_book_inv:
  assumes inv: "book_inv b" and ok: "OrderBook_cancel b m = Ok b'"
  shows "book_inv b'"
proof -
  from ok obtain a t ll h' ll' where m: "map_of (orders b) (m_order_id m) = Some a"
    and sd: "side_dict b (n_side (heap b a)) = Inr t"
    and lk: "map_of t (n_price (heap b a)) = Some ll"
    and rm: "ll_remove (heap b) ll a (m_size m) = Inr (h', ll')"
    and b': "b' = (if n_size (h' a) = 0
               then set_side_dict (n_side (h' a))
                      (if ll_num_orders ll' = 0 then sd_delitem (n_price (h' a)) t
                       else sd_setitem (n_price (h' a)) ll' t)
                      (b\<lparr>heap := h', orders := AList.delete (m_order_id m) (orders b)\<rparr>)
               else set_side_dict (n_side (h' a)) (sd_setitem (n_price (h' a)) ll' t)
                      (b\<lparr>heap := h'(a := (h' a)\<lparr>n_ts_recv := m_ts_recv m\<rparr>)\<rparr>))"
    by (rule cancel_Ok)
  let ?h = "heap b" and ?i = "m_order_id m"
  let ?s = "n_side (heap b a)" and ?p = "n_price (heap b a)"
  let ?lv = "set (all_levels b)"
  from rm have le: "\<not> m_size m > n_size (?h a)" by (auto dest: ll_remove_Inr)
  show ?thesis
  proof (cases "n_size (?h a) - m_size m = 0")
    case False
    from rm ll_remove_partial [where h = ?h and a = a and amount = "m_size m" and ll = ll,
        OF le False]
    have h': "h' = ?h(a := (?h a)\<lparr>n_size := n_size (?h a) - m_size m\<rparr>)"
      and ll': "ll' = ll\<lparr>ll_depth := ll_depth ll - m_size m\<rparr>" by simp_all
    from False have "b' = set_side_dict ?s
        (sd_setitem ?p (ll\<lparr>ll_depth := ll_depth ll - (n_size (?h a) - (n_size (?h a) - m_size m))\<rparr>) t)
        (b\<lparr>heap := ?h(a := (?h a)\<lparr>n_size := n_size (?h a) - m_size m,
                                   n_ts_recv := m_ts_recv m\<rparr>)\<rparr>)"
      by (simp add: b' h' ll')
    from resize_book_inv(1) [OF inv m sd lk False this] show ?thesis .
  next
    case True
    then have amt: "m_size m = n_size (?h a)" by simp
    from inv have ksb: "keys_sorted (bids b)" and kso: "keys_sorted (offers b)"
      and d: "distinct (map fst (orders b))"
      and lv: "\<forall>l \<in> ?lv. level_inv ?h (next_free b) (orders b) l"
      and ix: "\<forall>e \<in> set (orders b). index_inv ?h ?lv e"
      by (simp_all add: book_inv_def)
    have u: "uniq_levels ?lv" by (rule uniq_all_levels [OF ksb kso])
    from inv m obtain t2 ll2 where "side_dict b ?s = Inr t2" and "keys_sorted t2"
      and "map_of t2 ?p = Some ll2" and "(?s, ?p, ll2) \<in> ?lv"
      and "a \<in> set (ll_nodes ?h ll2)" and e2: "(?i, a) \<in> set (orders b)"
      by (rule book_inv_find)
    with sd lk have ks: "keys_sorted t" and lvl: "(?s, ?p, ll) \<in> ?lv"
      and ain: "a \<in> set (ll_nodes ?h ll)" by auto
    from lv lvl have li: "level_inv ?h (next_free b) (orders b) (?s, ?p, ll)" by blast
    then have q: "queue ?h ll (ll_nodes ?h ll)" by (rule level_inv_queue)
    have ids: "\<forall>z \<in> set (ll_nodes ?h ll). z \<noteq> a \<longrightarrow> n_order_id (?h z) \<noteq> n_order_id (?h a)"
    proof (intro ballI impI notI)
      fix z assume "z \<in> set (ll_nodes ?h ll)" "z \<noteq> a" "n_order_id (?h z) = n_order_id (?h a)"
      with level_inv_nodes(5) [OF li, of z] level_inv_nodes(5) [OF li ain] show False by simp
    qed
    let ?h1 = "?h(a := (?h a)\<lparr>n_size := 0\<rparr>)"
    from ll_remove_full [OF q ain ids amt] rm
    have h': "h' = unlink ?h1 a" and q': "queue h' ll' (remove1 a (ll_nodes ?h ll))"
      and pr': "ll_price ll' = ll_price ll" by auto
    from content_fields [OF unlink_content [of ?h1 a a]]
    have fa: "n_size (h' a) = 0" "n_side (h' a) = ?s" "n_price (h' a) = ?p" by (simp_all add: h')
    let ?t' = "if ll_num_orders ll' = 0 then sd_delitem ?p t else sd_setitem ?p ll' t"
    let ?b1 = "b\<lparr>heap := h', orders := AList.delete ?i (orders b)\<rparr>"
    from fa have b'': "b' = set_side_dict ?s ?t' ?b1" by (simp add: b')
    have st: "set ?t' = {x \<in> set t. fst x \<noteq> ?p} \<union>
        (if ll_num_orders ll' = 0 then {} else {(?p, ll')})"
      by (simp add: set_sd_setitem [OF ks] set_sd_delitem [OF ks])
    have lv': "set (all_levels b') = {x \<in> ?lv. \<not> (fst x = ?s \<and> fst (snd x) = ?p)} \<union>
        (if ll_num_orders ll' = 0 then {} else {(?s, ?p, ll')})"
      unfolding b'' using levels_replace [OF sd ks _ _ st, of ?b1] by simp
    have fields: "heap b' = h'" "next_free b' = next_free b"
      "orders b' = AList.delete ?i (orders b)" by (simp_all add: b'')
    from inv_remove [OF lv ix u d e2 lvl ain h' q' pr' lv' fields(3)]
    have "\<forall>l \<in> set (all_levels b'). level_inv (heap b') (next_free b') (orders b') l"
      and "\<forall>e \<in> set (orders b'). index_inv (heap b') (set (all_levels b')) e"
      by (simp_all add: fields)
    moreover have "keys_sorted ?t'"
      by (simp add: keys_sorted_sd_setitem [OF ks] keys_sorted_sd_delitem [OF ks])
    then have "keys_sorted (bids b')" "keys_sorted (offers b')"
      unfolding b'' using keys_sorted_replace [OF sd _ _ ksb kso, of ?b1 ?t'] by simp_all
    moreover have "distinct (map fst (orders b'))"
      using d by (simp add: fields distinct_delete)
    ultimately show ?thesis by (intro book_invI)
  qed
qed

lemma count_list_distinct: "distinct xs \<Longrightarrow> x \<in> set xs \<Longrightarrow> count_list xs x = 1"
  by (induction xs) auto

lemma modify_Ok:
  assumes "OrderBook_modify b m = Ok b'"
  obtains (replace) "cancel_then_add b m = Ok b'"
  | (shrink) a t ll h' ll' where "map_of (orders b) (m_order_id m) = Some a"
      and "side_dict b (n_side (heap b a)) = Inr t"
      and "map_of t (n_price (heap b a)) = Some ll"
      and "n_side (heap b a) = m_side m" and "m_price m = n_price (heap b a)"
      and "\<not> m_size m > n_size (heap b a)"
      and "ll_remove (heap b) ll a (n_size (heap b a) - m_size m) = Inr (h', ll')"
      and "b' = set_side_dict (n_side (h' a)) (sd_setitem (n_price (h' a)) ll' t)
                  (b\<lparr>heap := h'(a := (h' a)\<lparr>n_ts_recv := m_ts_recv m\<rparr>)\<rparr>)"
  using assms
  by (auto simp: OrderBook_modify_def split: option.splits sum.splits prod.splits if_splits)

lemma cancel_then_add_book_inv:
  assumes "book_inv b" and "m_size m \<noteq> 0" and "cancel_then_add b m = Ok b'"
  shows "book_inv b'"
proof (cases "OrderBook_cancel b m")
  case (Ok b1)
  with assms(3) have "OrderBook_add b1 m = Ok b'" by (simp add: cancel_then_add_def)
  with cancel_book_inv [OF assms(1) Ok] assms(2) show ?thesis by (blast intro: add_book_inv)
next
  case (Raised e b1)
  with assms(3) show ?thesis by (simp add: cancel_then_add_def)
qed

lemma modify_book_inv:
  assumes inv: "book_inv b" and z: "m_size m \<noteq> 0" and ok: "OrderBook_modify b m = Ok b'"
  shows "book_inv b'"
  using ok
proof (cases rule: modify_Ok)
  case replace
  with inv z show ?thesis by (rule cancel_then_add_book_inv)
next
  case (shrink a t ll h' ll')
  let ?h = "heap b"
  let ?amount = "n_size (?h a) - m_size m"
  from shrink(7) have le: "\<not> ?amount > n_size (?h a)" by (auto dest: ll_remove_Inr)
  from z have nz: "n_size (?h a) - ?amount \<noteq> 0" by simp
  from shrink(7) ll_remove_partial [where h = ?h and a = a and amount = ?amount and ll = ll,
      OF le nz]
  have h': "h' = ?h(a := (?h a)\<lparr>n_size := m_size m\<rparr>)"
    and ll': "ll' = ll\<lparr>ll_depth := ll_depth ll - ?amount\<rparr>" by simp_all
  have "b' = set_side_dict (n_side (?h a))
        (sd_setitem (n_price (?h a)) (ll\<lparr>ll_depth := ll_depth ll - (n_size (?h a) - m_size m)\<rparr>) t)
        (b\<lparr>heap := ?h(a := (?h a)\<lparr>n_size := m_size m, n_ts_recv := m_ts_recv m\<rparr>)\<rparr>)"
    by (simp add: shrink(8) h' ll')
  from resize_book_inv(1) [OF inv shrink(1-3) z this] show ?thesis .
qed

lemma book_inv_ts [simp]: "book_inv (b\<lparr>ts_last_update := x\<rparr>) = book_inv b"
  by (simp add: book_inv_def all_levels_def)

lemma book_inv_clear: "book_inv (OrderBook_clear b)"
  by (simp add: book_inv_def all_levels_def OrderBook_clear_def keys_sorted_def)

lemma book_inv_init: "book_inv (OrderBook_init i p)"
  by (simp add: book_inv_def all_levels_def OrderBook_init_def keys_sorted_def)

lemma apply_Ok:
  assumes "OrderBook_apply b m = Ok b'"
  obtains b1 where "b' = b1\<lparr>ts_last_update := m_ts_recv m\<rparr>"
    and "b1 = b \<or> b1 = OrderBook_clear b \<or>
         (m_action m = ''A'' \<and> OrderBook_add b m = Ok b1) \<or>
         (m_action m = ''C'' \<and> OrderBook_cancel b m = Ok b1) \<or>
         (m_action m = ''M'' \<and> OrderBook_modify b m = Ok b1)"
  using assms by (auto simp: OrderBook_apply_def split: if_splits outcome.splits)

lemma apply_book_inv:
  assumes inv: "book_inv b" and z: "nonzero_size m" and ok: "OrderBook_apply b m = Ok b'"
  shows "book_inv b'"
proof -
  from ok obtain b1 where b': "b' = b1\<lparr>ts_last_update := m_ts_recv m\<rparr>"
    and c: "b1 = b \<or> b1 = OrderBook_clear b \<or>
         (m_action m = ''A'' \<and> OrderBook_add b m = Ok b1) \<or>
         (m_action m = ''C'' \<and> OrderBook_cancel b m = Ok b1) \<or>
         (m_action m = ''M'' \<and> OrderBook_modify b m = Ok b1)"
    by (rule apply_Ok)
  from c inv z have "book_inv b1"
    by (auto simp: nonzero_size_def book_inv_clear
        intro: add_book_inv cancel_book_inv modify_book_inv)
  with b' show ?thesis by simp
qed

lemma apply_all_book_inv:
  "book_inv b \<Longrightarrow> \<forall>m \<in> set ms. nonzero_size m \<Longrightarrow> apply_all b ms = Ok b' \<Longrightarrow> book_inv b'"
proof (induction ms arbitrary: b)
  case Nil
  then show ?case by simp
next
  case (Cons m ms)
  from Cons.prems(3) obtain b1 where 1: "OrderBook_apply b m = Ok b1"
    and 2: "apply_all b1 ms = Ok b'"
    by (auto split: outcome.splits)
  from Cons.prems(1,2) 1 have "book_inv b1" by (auto intro: apply_book_inv)
  with Cons.prems(2) 2 show ?case by (auto intro: Cons.IH)
qed

lemma book_inv_level_ok:
  assumes inv: "book_inv b" and l: "(pr, ll) \<in> set (bids b) \<union> set (offers b)"
  shows "level_ok (heap b) ll"
proof -
  from l obtain s where "(s, pr, ll) \<in> set (all_levels b)" by (auto simp: in_all_levels)
  with inv have li: "level_inv (heap b) (next_free b) (orders b) (s, pr, ll)"
    by (auto simp: book_inv_def)
  from level_inv_queue [OF li] level_inv_nodes(4) [OF li] li show ?thesis
    by (auto simp: level_ok_def queue_def level_inv_def)
qed

lemma book_inv_indexed_once:
  assumes inv: "book_inv b" and e: "e \<in> set (orders b)"
  shows "indexed_once b e"
proof -
  obtain i a where ia: "e = (i, a)" by (cases e)
  from inv have d: "distinct (map fst (orders b))" by (simp add: book_inv_def)
  with e ia have m: "map_of (orders b) i = Some a" by simp
  from inv m obtain t ll where sd: "side_dict b (n_side (heap b a)) = Inr t"
    and lk: "map_of t (n_price (heap b a)) = Some ll"
    and lv: "(n_side (heap b a), n_price (heap b a), ll) \<in> set (all_levels b)"
    and a: "a \<in> set (ll_nodes (heap b) ll)"
    by (rule book_inv_find)
  from inv lv have "level_inv (heap b) (next_free b) (orders b)
      (n_side (heap b a), n_price (heap b a), ll)" by (auto simp: book_inv_def)
  then have "distinct (ll_nodes (heap b) ll)" by (auto dest: level_inv_queue simp: queue_def)
  from this a have "count_list (ll_nodes (heap b) ll) a = 1" by (rule count_list_distinct)
  with sd lk ia show ?thesis by (simp add: indexed_once_def)
qed


section \<open>Well-formed books: exact results of single operations\<close>





lemma side_dict_ts [simp]: "side_dict (b\<lparr>ts_last_update := x\<rparr>) s = side_dict b s"
  by (simp add: side_dict_def)







section \<open>The consolidated fold: lemmas\<close>

lemma foldl_bbo_step:
  "foldl (bbo_step mk i) acc ps =
     (foldl fold_bid (fst acc) (map (\<lambda>p. fst (Book_bbo (get_order_book mk i p))) ps),
      foldl fold_offer (snd acc) (map (\<lambda>p. snd (Book_bbo (get_order_book mk i p))) ps))"
  by (induction ps arbitrary: acc) (auto simp: bbo_step_def split: prod.splits)








lemma foldl_fold_bid_nonzero:
  "bbo_price acc \<noteq> Some 0 \<Longrightarrow> bbo_price (foldl fold_bid acc qs) \<noteq> Some 0"
  by (induction qs arbitrary: acc) (auto simp: fold_bid_def truthy_def split: option.splits)

lemma foldl_fold_offer_nonzero:
  "bbo_price acc \<noteq> Some 0 \<Longrightarrow> bbo_price (foldl fold_offer acc qs) \<noteq> Some 0"
  by (induction qs arbitrary: acc) (auto simp: fold_offer_def truthy_def split: option.splits)

lemma Market_bbo_None:
  "Market_bbo mk i None =
     (foldl fold_bid \<lparr>bbo_size = 0, bbo_price = None\<rparr> (map fst (exchange_quotes mk i)),
      foldl fold_offer \<lparr>bbo_size = 0, bbo_price = None\<rparr> (map snd (exchange_quotes mk i)))"
  by (simp add: Market_bbo_def foldl_bbo_step exchange_quotes_def comp_def)


section \<open>Errors and the state they leave: lemmas\<close>

lemma add_raised: "OrderBook_add b m = Raised e b' \<Longrightarrow> b' = b"
  by (auto simp: OrderBook_add_def Let_def split: if_splits sum.splits prod.splits)

lemma ll_remove_num_orders:
  "ll_remove h ll a amount = Inr (h', ll') \<Longrightarrow> ll_num_orders ll - 1 \<le> ll_num_orders ll'"
  by (auto simp: ll_remove_def Let_def split: if_splits option.splits)

lemma positive_counts_level:
  assumes "positive_counts b" and "side_dict b s = Inr t" and "map_of t p = Some ll"
  shows "0 < ll_num_orders ll"
proof -
  from assms(3) have "(p, ll) \<in> set t" by (rule map_of_SomeD)
  moreover from assms(2) have "t = bids b \<or> t = offers b"
    by (auto simp: side_dict_def split: if_splits)
  ultimately show ?thesis using assms(1) by (auto simp: positive_counts_def)
qed

lemma book_inv_positive_counts:
  assumes "book_inv b"
  shows "positive_counts b"
proof -
  have "0 < ll_num_orders ll" if "(p, ll) \<in> set (bids b) \<union> set (offers b)" for p ll
  proof -
    from that have "(''B'', p, ll) \<in> set (all_levels b) \<or> (''A'', p, ll) \<in> set (all_levels b)"
      by (auto simp: all_levels_def)
    with assms show ?thesis by (auto simp: book_inv_def level_inv_def)
  qed
  then show ?thesis by (auto simp: positive_counts_def)
qed

lemma cancel_raised:
  assumes "OrderBook_cancel b m = Raised e b'" and "positive_counts b"
  shows "b' = b"
proof (rule ccontr)
  assume ne: "b' \<noteq> b"
  with assms(1) obtain a t ll h' ll' where "side_dict b (n_side (heap b a)) = Inr t"
    and "map_of t (n_price (heap b a)) = Some ll"
    and "ll_remove (heap b) ll a (m_size m) = Inr (h', ll')" and "ll_num_orders ll' < 0"
    by (auto simp: OrderBook_cancel_def split: option.splits sum.splits prod.splits if_splits)
  with positive_counts_level [OF assms(2)] ll_remove_num_orders show False by fastforce
qed

lemma cancel_ok_size:
  "OrderBook_cancel b m = Ok b' \<Longrightarrow>
   \<exists>a. map_of (orders b) (m_order_id m) = Some a \<and> m_size m \<le> n_size (heap b a)"
  by (auto simp: OrderBook_cancel_def split: option.splits sum.splits prod.splits if_splits
      dest: ll_remove_Inr)

lemma cancel_then_add_raised:
  assumes "cancel_then_add b m = Raised e b'" and pc: "positive_counts b"
    and "\<forall>a. map_of (orders b) (m_order_id m) = Some a \<longrightarrow> n_size (heap b a) < m_size m"
  shows "b' = b"
proof (cases "OrderBook_cancel b m")
  case (Ok b1)
  from cancel_ok_size [OF this] assms(3) show ?thesis by auto
next
  case (Raised e1 b1)
  with assms(1) have "b' = b1" by (simp add: cancel_then_add_def)
  with cancel_raised [OF Raised pc] show ?thesis by simp
qed

lemma modify_raised:
  assumes "OrderBook_modify b m = Raised e b'" and pc: "positive_counts b"
    and "\<not> (\<exists>a. map_of (orders b) (m_order_id m) = Some a \<and> m_side m = n_side (heap b a) \<and>
            m_price m \<noteq> n_price (heap b a) \<and> m_size m \<le> n_size (heap b a))"
  shows "b' = b"
proof (cases "map_of (orders b) (m_order_id m)")
  case None
  with assms(1) show ?thesis by (simp add: OrderBook_modify_def)
next
  case (Some a)
  show ?thesis
  proof (cases "n_side (heap b a) = m_side m \<and>
      (m_price m \<noteq> n_price (heap b a) \<or> n_size (heap b a) < m_size m)")
    case True
    with assms(3) Some have lt: "n_size (heap b a) < m_size m" by auto
    from assms(1) Some True have "cancel_then_add b m = Raised e b' \<or> b' = b"
      by (auto simp: OrderBook_modify_def split: sum.splits option.splits if_splits)
    with cancel_then_add_raised [of b m e b'] pc Some lt show ?thesis by auto
  next
    case False
    with assms(1) Some show ?thesis
      by (auto simp: OrderBook_modify_def split: sum.splits option.splits if_splits prod.splits)
  qed
qed

section \<open>The claims\<close>

text \<open>
  Claim C1 fails on the code. \<^verbatim>\<open>_modify\<close> calls \<^verbatim>\<open>self._cancel(msg)\<close>, which removes
  \<^verbatim>\<open>msg.size\<close> shares, the new size, and not the node's remaining size. A modify that
  raises the size therefore always ends in the \<^verbatim>\<open>ValueError\<close> of \<^verbatim>\<open>remove\<close>, with the
  book as it was: here the bid of 5 at 100 is to become a bid of 8.
\<close>

theorem modify_size_up_raises:
  "OrderBook_apply one_bid (example_msg ''M'' ''B'' 1 100 8 128) =
     Raised ValueError_amount one_bid"
  by (simp add: one_bid_def eval_defs)

text \<open>
  A modify that changes the price and lowers the size cancels part of the order and
  then fails the duplicate-id assertion of \<^verbatim>\<open>_add\<close>: the order stays where it was, with
  5 - 3 = 2 shares.
\<close>

lemma modify_price_smaller_raises:
  "raised (OrderBook_apply one_bid (example_msg ''M'' ''B'' 1 99 3 128)) =
     Some AssertionError_duplicate \<and>
   n_size (heap (state_of (OrderBook_apply one_bid (example_msg ''M'' ''B'' 1 99 3 128))) 0) = 2"
  by (simp add: one_bid_def eval_defs)






text \<open>
  Claim C4, as amended. In every book reached from a fresh one by successful \<^verbatim>\<open>apply\<close>
  calls whose add and modify messages carry a size other than 0: every price level of
  either side map has a positive order count equal to the number of linked nodes, its
  depth is the sum of its nodes' sizes, no node has size 0, and every entry of the id
  index is found exactly once in the queue at the node's price on the node's side.
\<close>

theorem reachable_well_formed:
  assumes "apply_all (OrderBook_init i p) ms = Ok b" and "\<forall>m \<in> set ms. nonzero_size m"
  shows "(\<forall>(pr, ll) \<in> set (bids b) \<union> set (offers b). level_ok (heap b) ll) \<and>
         (\<forall>e \<in> set (orders b). indexed_once b e)"
proof -
  from book_inv_init assms(2,1) have "book_inv b" by (rule apply_all_book_inv)
  then show ?thesis by (auto intro: book_inv_level_ok book_inv_indexed_once)
qed

text \<open>
  Witness for C4: the three bids of scenario 2 of the spec's end-to-end list.
\<close>

theorem reachable_well_formed_witness:
  "apply_all (OrderBook_init (Inl 7) (Inl 1))
     [example_msg ''A'' ''B'' 1 100 5 128, example_msg ''A'' ''B'' 2 100 3 128,
      example_msg ''A'' ''B'' 3 100 7 128] = Ok three_bids \<and>
   list_all (\<lambda>(pr, ll). level_ok (heap three_bids) ll) (bids three_bids @ offers three_bids) \<and>
   list_all (indexed_once three_bids) (orders three_bids)"
proof -
  let ?ms = "[example_msg ''A'' ''B'' 1 100 5 128, example_msg ''A'' ''B'' 2 100 3 128,
      example_msg ''A'' ''B'' 3 100 7 128]"
  have 1: "apply_all (OrderBook_init (Inl 7) (Inl 1)) ?ms = Ok three_bids"
    by (simp add: three_bids_def eval_defs)
  have 2: "\<forall>m \<in> set ?ms. nonzero_size m" by (simp add: nonzero_size_def example_msg_def)
  from reachable_well_formed [OF 1 2] 1 show ?thesis
    by (simp add: list_all_iff)
qed

text \<open>
  Counterexample for C4 as stated: an add message of size 0 is applied without error
  and leaves a node of size 0 in its queue.
\<close>

theorem zero_size_add_counterexample:
  "raised (apply_all (OrderBook_init (Inl 7) (Inl 1)) [example_msg ''A'' ''B'' 1 100 0 128]) = None \<and>
   \<not> list_all (\<lambda>(pr, ll). level_ok (heap (example_book [example_msg ''A'' ''B'' 1 100 0 128])) ll)
       (bids (example_book [example_msg ''A'' ''B'' 1 100 0 128]) @
        offers (example_book [example_msg ''A'' ''B'' 1 100 0 128]))"
  by (simp add: eval_defs level_ok_def ll_nodes_def)

text \<open>
  A modify to size 0 at the same price is applied without error as well. It unlinks the
  node as \<^verbatim>\<open>_cancel\<close> would, but \<^verbatim>\<open>_modify\<close> neither drops the id from the index nor
  deletes a level that became empty: the index entry of order 2 points at a node that
  is in no queue.
\<close>

lemma modify_to_zero_stale_index:
  "raised (OrderBook_apply three_bids (example_msg ''M'' ''B'' 2 100 0 128)) = None \<and>
   map (\<lambda>(p, ll). ll_nodes (heap three_bids) ll) (bids three_bids) = [[0, 1, 2]] \<and>
   map (\<lambda>(p, ll). ll_nodes (heap (state_of (OrderBook_apply three_bids (example_msg ''M'' ''B'' 2 100 0 128)))) ll)
     (bids (state_of (OrderBook_apply three_bids (example_msg ''M'' ''B'' 2 100 0 128)))) = [[0, 2]] \<and>
   map_of (orders (state_of (OrderBook_apply three_bids (example_msg ''M'' ''B'' 2 100 0 128)))) 2 = Some 1"
  by (simp add: three_bids_def eval_defs ll_nodes_def eval_nat_numeral)








text \<open>
  Claim C8. The full-depth \<^verbatim>\<open>apply\<close> raises whenever \<^verbatim>\<open>F_TOB\<close> is set, whatever the
  action. The top-of-book \<^verbatim>\<open>apply\<close> raises for the actions \<^verbatim>\<open>C\<close>, \<^verbatim>\<open>M\<close>, \<^verbatim>\<open>F\<close> and for
  every action outside the alphabet, and for \<^verbatim>\<open>A\<close> without \<^verbatim>\<open>F_TOB\<close>. The actions
  \<^verbatim>\<open>T\<close> and \<^verbatim>\<open>N\<close> are accepted by both: by the top-of-book book always, by the
  full-depth book when the flag check of the first sentence lets the message through.
  In every raising case the book is left as it was.
\<close>

theorem apply_rejections:
  "(m_flags m AND F_TOB \<noteq> 0 \<longrightarrow> OrderBook_apply b m = Raised ValueError_flags b) \<and>
   (m_action m \<in> {''C'', ''M'', ''F''} \<or>
    m_action m \<notin> {''A'', ''C'', ''M'', ''R'', ''T'', ''F'', ''N''} \<longrightarrow>
      TopOfBookOrderBook_apply t m = Raised ValueError_action t) \<and>
   (m_action m = ''A'' \<and> m_flags m AND F_TOB = 0 \<longrightarrow>
      TopOfBookOrderBook_apply t m = Raised ValueError_flags t) \<and>
   (m_action m \<in> {''T'', ''N''} \<longrightarrow>
      TopOfBookOrderBook_apply t m = Ok (t\<lparr>tob_ts_last_update := m_ts_recv m\<rparr>) \<and>
      (m_flags m AND F_TOB = 0 \<longrightarrow>
         OrderBook_apply b m = Ok (b\<lparr>ts_last_update := m_ts_recv m\<rparr>)))"
  by (auto simp: OrderBook_apply_def TopOfBookOrderBook_apply_def)

text \<open>
  Witness for C8: one message for each of its cases.
\<close>

theorem apply_rejections_witness:
  "OrderBook_apply (OrderBook_init (Inl 7) (Inl 1)) (example_msg ''T'' ''N'' 0 0 0 64) =
     Raised ValueError_flags (OrderBook_init (Inl 7) (Inl 1)) \<and>
   TopOfBookOrderBook_apply (TopOfBookOrderBook_init (Inl 7) (Inl 1))
       (example_msg ''C'' ''B'' 1 50 1 64) =
     Raised ValueError_action (TopOfBookOrderBook_init (Inl 7) (Inl 1)) \<and>
   TopOfBookOrderBook_apply (TopOfBookOrderBook_init (Inl 7) (Inl 1))
       (example_msg ''X'' ''B'' 1 50 1 64) =
     Raised ValueError_action (TopOfBookOrderBook_init (Inl 7) (Inl 1)) \<and>
   TopOfBookOrderBook_apply (TopOfBookOrderBook_init (Inl 7) (Inl 1))
       (example_msg ''A'' ''B'' 1 50 1 128) =
     Raised ValueError_flags (TopOfBookOrderBook_init (Inl 7) (Inl 1)) \<and>
   TopOfBookOrderBook_apply (TopOfBookOrderBook_init (Inl 7) (Inl 1))
       (example_msg ''N'' ''N'' 0 0 0 128) =
     Ok ((TopOfBookOrderBook_init (Inl 7) (Inl 1))\<lparr>tob_ts_last_update := 5\<rparr>) \<and>
   OrderBook_apply (OrderBook_init (Inl 7) (Inl 1)) (example_msg ''T'' ''N'' 0 0 0 128) =
     Ok ((OrderBook_init (Inl 7) (Inl 1))\<lparr>ts_last_update := 5\<rparr>)"
  using apply_rejections [of "example_msg ''T'' ''N'' 0 0 0 64" "OrderBook_init (Inl 7) (Inl 1)"
      "TopOfBookOrderBook_init (Inl 7) (Inl 1)"]
    apply_rejections [of "example_msg ''C'' ''B'' 1 50 1 64" "OrderBook_init (Inl 7) (Inl 1)"
      "TopOfBookOrderBook_init (Inl 7) (Inl 1)"]
    apply_rejections [of "example_msg ''X'' ''B'' 1 50 1 64" "OrderBook_init (Inl 7) (Inl 1)"
      "TopOfBookOrderBook_init (Inl 7) (Inl 1)"]
    apply_rejections [of "example_msg ''A'' ''B'' 1 50 1 128" "OrderBook_init (Inl 7) (Inl 1)"
      "TopOfBookOrderBook_init (Inl 7) (Inl 1)"]
    apply_rejections [of "example_msg ''N'' ''N'' 0 0 0 128" "OrderBook_init (Inl 7) (Inl 1)"
      "TopOfBookOrderBook_init (Inl 7) (Inl 1)"]
    apply_rejections [of "example_msg ''T'' ''N'' 0 0 0 128" "OrderBook_init (Inl 7) (Inl 1)"
      "TopOfBookOrderBook_init (Inl 7) (Inl 1)"]
  by (simp add: example_msg_def F_TOB_def)

text \<open>
  Claim C9, as amended. In a book all of whose price levels have a positive order count:
  if \<^verbatim>\<open>apply\<close> raises, the book (id index, both side maps, all nodes,
  \<^verbatim>\<open>ts_last_update\<close>) is exactly as before the call, unless the message is a modify of
  a resting order that keeps the side, changes the price and does not raise the size:
  there \<^verbatim>\<open>_cancel\<close> has already been applied when \<^verbatim>\<open>_add\<close> raises.
\<close>

theorem apply_error_state:
  assumes "OrderBook_apply b m = Raised e b'" and "positive_counts b"
    and "\<not> (m_action m = ''M'' \<and>
            (\<exists>a. map_of (orders b) (m_order_id m) = Some a \<and> m_side m = n_side (heap b a) \<and>
               m_price m \<noteq> n_price (heap b a) \<and> m_size m \<le> n_size (heap b a)))"
  shows "b' = b"
proof -
  from assms(1) have "b' = b \<or> OrderBook_add b m = Raised e b' \<or>
      OrderBook_cancel b m = Raised e b' \<or> (m_action m = ''M'' \<and> OrderBook_modify b m = Raised e b')"
    by (auto simp: OrderBook_apply_def split: if_splits outcome.splits)
  with assms(2,3) add_raised cancel_raised modify_raised [of b m e b'] show ?thesis by blast
qed

text \<open>
  Witness for C9: a modify that raises the size, an add of a resting id and a cancel of
  an unknown id raise and leave the book as it was.
\<close>

theorem apply_error_state_witness:
  "OrderBook_apply one_bid (example_msg ''M'' ''B'' 1 100 8 128) = Raised ValueError_amount one_bid \<and>
   OrderBook_apply one_bid (example_msg ''A'' ''B'' 1 101 8 128) =
     Raised AssertionError_duplicate one_bid \<and>
   OrderBook_apply one_bid (example_msg ''C'' ''B'' 2 100 1 128) = Raised KeyError_order one_bid"
proof -
  have 1: "raised (OrderBook_apply one_bid (example_msg ''M'' ''B'' 1 100 8 128)) = Some ValueError_amount"
    and 2: "raised (OrderBook_apply one_bid (example_msg ''A'' ''B'' 1 101 8 128)) =
      Some AssertionError_duplicate"
    and 3: "raised (OrderBook_apply one_bid (example_msg ''C'' ''B'' 2 100 1 128)) = Some KeyError_order"
    by (simp_all add: one_bid_def eval_defs)
  have h: "\<not> (m_action (example_msg ''M'' ''B'' 1 100 8 128) = ''M'' \<and>
      (\<exists>a. map_of (orders one_bid) (m_order_id (example_msg ''M'' ''B'' 1 100 8 128)) = Some a \<and>
         m_side (example_msg ''M'' ''B'' 1 100 8 128) = n_side (heap one_bid a) \<and>
         m_price (example_msg ''M'' ''B'' 1 100 8 128) \<noteq> n_price (heap one_bid a) \<and>
         m_size (example_msg ''M'' ''B'' 1 100 8 128) \<le> n_size (heap one_bid a)))"
    by (simp add: one_bid_def eval_defs)
  from 1 obtain b1 where r1: "OrderBook_apply one_bid (example_msg ''M'' ''B'' 1 100 8 128) =
      Raised ValueError_amount b1"
    by (cases "OrderBook_apply one_bid (example_msg ''M'' ''B'' 1 100 8 128)") auto
  from 2 obtain b2 where r2: "OrderBook_apply one_bid (example_msg ''A'' ''B'' 1 101 8 128) =
      Raised AssertionError_duplicate b2"
    by (cases "OrderBook_apply one_bid (example_msg ''A'' ''B'' 1 101 8 128)") auto
  from 3 obtain b3 where r3: "OrderBook_apply one_bid (example_msg ''C'' ''B'' 2 100 1 128) =
      Raised KeyError_order b3"
    by (cases "OrderBook_apply one_bid (example_msg ''C'' ''B'' 2 100 1 128)") auto
  have pc: "positive_counts one_bid" by (simp add: positive_counts_def one_bid_def eval_defs)
  from apply_error_state [OF r1 pc h] apply_error_state [OF r2 pc] apply_error_state [OF r3 pc]
    r1 r2 r3
  show ?thesis by (simp add: example_msg_def)
qed

text \<open>
  Counterexample for C9 as stated: a modify to \<^verbatim>\<open>UNDEF_PRICE\<close> with the resting size
  cancels the order in full and then fails the price assertion of \<^verbatim>\<open>_add\<close>; the error
  is raised and the order and its level are gone.
\<close>

theorem error_changes_state_counterexample:
  "raised (OrderBook_apply one_bid (example_msg ''M'' ''B'' 1 UNDEF_PRICE 5 128)) =
     Some AssertionError_undef_price \<and>
   orders one_bid = [(1, 0)] \<and> bids one_bid \<noteq> [] \<and>
   orders (state_of (OrderBook_apply one_bid (example_msg ''M'' ''B'' 1 UNDEF_PRICE 5 128))) = [] \<and>
   bids (state_of (OrderBook_apply one_bid (example_msg ''M'' ''B'' 1 UNDEF_PRICE 5 128))) = []"
  by (simp add: one_bid_def eval_defs)

text \<open>
  Why the order counts are assumed positive: after a modify to size 0 the level of the
  one bid has the order count 0 and the id is still in the index; a cancel of size 0 for
  that id then lowers the count to -1 and deletes the id, and \<^verbatim>\<open>len(order_list)\<close>
  raises.
\<close>

lemma cancel_after_zero_modify_raises:
  "raised (OrderBook_apply one_bid (example_msg ''M'' ''B'' 1 100 0 128)) = None \<and>
   orders (state_of (OrderBook_apply one_bid (example_msg ''M'' ''B'' 1 100 0 128))) = [(1, 0)] \<and>
   raised (OrderBook_apply (state_of (OrderBook_apply one_bid (example_msg ''M'' ''B'' 1 100 0 128)))
             (example_msg ''C'' ''B'' 1 100 0 128)) = Some ValueError_len \<and>
   orders (state_of (OrderBook_apply (state_of (OrderBook_apply one_bid (example_msg ''M'' ''B'' 1 100 0 128)))
             (example_msg ''C'' ''B'' 1 100 0 128))) = []"
  by (simp add: one_bid_def eval_defs)

text \<open>
  Claim C10. Without a publisher id, \<^verbatim>\<open>Market.bbo\<close> tests the price of a per-exchange
  quote for truth. A book whose best bid (or best offer) is at price 0 is skipped by that
  turn of the loop, a quote at price 0 is never the consolidated result, and yet the
  book's own \<^verbatim>\<open>bbo()\<close> reports the level at price 0 with its depth.
\<close>

theorem zero_price_skipped:
  "(bbo_price (fst (Book_bbo (get_order_book mk i p))) = Some 0 \<longrightarrow>
      fst (bbo_step mk i best p) = fst best) \<and>
   (bbo_price (snd (Book_bbo (get_order_book mk i p))) = Some 0 \<longrightarrow>
      snd (bbo_step mk i best p) = snd best) \<and>
   bbo_price (fst (Market_bbo mk i None)) \<noteq> Some 0 \<and>
   bbo_price (snd (Market_bbo mk i None)) \<noteq> Some 0 \<and>
   (bids b \<noteq> [] \<and> ll_price (snd (last (bids b))) = 0 \<longrightarrow>
      fst (OrderBook_bbo b) =
        \<lparr>bbo_size = ll_depth (snd (last (bids b))), bbo_price = Some 0\<rparr>) \<and>
   (offers b \<noteq> [] \<and> ll_price (snd (hd (offers b))) = 0 \<longrightarrow>
      snd (OrderBook_bbo b) =
        \<lparr>bbo_size = ll_depth (snd (hd (offers b))), bbo_price = Some 0\<rparr>)"
proof -
  have "bbo_price (fst (Market_bbo mk i None)) \<noteq> Some 0"
    by (simp add: Market_bbo_None foldl_fold_bid_nonzero)
  moreover have "bbo_price (snd (Market_bbo mk i None)) \<noteq> Some 0"
    by (simp add: Market_bbo_None foldl_fold_offer_nonzero)
  moreover have "bbo_price (fst (Book_bbo (get_order_book mk i p))) = Some 0 \<longrightarrow>
      fst (bbo_step mk i best p) = fst best"
    by (auto simp: bbo_step_def fold_bid_def truthy_def split: prod.splits)
  moreover have "bbo_price (snd (Book_bbo (get_order_book mk i p))) = Some 0 \<longrightarrow>
      snd (bbo_step mk i best p) = snd best"
    by (auto simp: bbo_step_def fold_offer_def truthy_def split: prod.splits)
  ultimately show ?thesis by (simp add: OrderBook_bbo_def Let_def)
qed

text \<open>
  Witness for C10: a market whose only book has a bid of 5 at price 0.
\<close>

theorem zero_price_skipped_witness:
  "Book_bbo (get_order_book zero_market 7 1) =
     (\<lparr>bbo_size = 5, bbo_price = Some 0\<rparr>, \<lparr>bbo_size = 0, bbo_price = None\<rparr>) \<and>
   Market_bbo zero_market 7 None =
     (\<lparr>bbo_size = 0, bbo_price = None\<rparr>, \<lparr>bbo_size = 0, bbo_price = None\<rparr>)"
proof -
  have b: "Book_bbo (get_order_book zero_market 7 1) =
     (\<lparr>bbo_size = 5, bbo_price = Some 0\<rparr>, \<lparr>bbo_size = 0, bbo_price = None\<rparr>)"
    by (simp add: zero_market_def get_order_book_def Book_bbo_def OrderBook_bbo_def eval_defs)
  with zero_price_skipped [of zero_market 7 1
      "(\<lparr>bbo_size = 0, bbo_price = None\<rparr>, \<lparr>bbo_size = 0, bbo_price = None\<rparr>)"]
  have "fst (bbo_step zero_market 7
      (\<lparr>bbo_size = 0, bbo_price = None\<rparr>, \<lparr>bbo_size = 0, bbo_price = None\<rparr>) 1) =
      \<lparr>bbo_size = 0, bbo_price = None\<rparr>" by simp
  moreover have "snd (bbo_step zero_market 7
      (\<lparr>bbo_size = 0, bbo_price = None\<rparr>, \<lparr>bbo_size = 0, bbo_price = None\<rparr>) 1) =
      \<lparr>bbo_size = 0, bbo_price = None\<rparr>"
    using b by (simp add: bbo_step_def fold_offer_def truthy_def)
  ultimately have "bbo_step zero_market 7
      (\<lparr>bbo_size = 0, bbo_price = None\<rparr>, \<lparr>bbo_size = 0, bbo_price = None\<rparr>) 1 =
      (\<lparr>bbo_size = 0, bbo_price = None\<rparr>, \<lparr>bbo_size = 0, bbo_price = None\<rparr>)"
    by (simp add: prod_eq_iff)
  then have "Market_bbo zero_market 7 None =
     (\<lparr>bbo_size = 0, bbo_price = None\<rparr>, \<lparr>bbo_size = 0, bbo_price = None\<rparr>)"
    by (simp add: Market_bbo_def zero_market_def)
  with b show ?thesis by simp
qed

end
